theory Spec2Isabelle
  imports Complex_Main
begin

section \<open>The signaling server of ogemle (server/src/index.ts)\<close>

text \<open>
  The server keeps three pieces of shared state: the registry \<open>clients\<close> (a JavaScript
  \<open>Map\<close> from connection id to \<open>Client\<close> object), the array \<open>waitingQueue\<close> of
  connection ids, and the counters in \<open>stats\<close>. Every handler runs to completion on the
  single event loop, so a handler is a function from state to state.

  \<^item> A \<open>Client\<close> object lives on the heap and is reached through references held by the
    registry and by the closures of its socket callbacks. The heap is the field \<open>store\<close>;
    the address of an object is the id it was created with, which is the only key it is
    ever stored under. The field \<open>clients\<close> is the list of the keys of the \<open>Map\<close> in
    insertion order, so \<open>clients.get(k)\<close> is the object at \<open>k\<close> when \<open>k\<close> is a key.
  \<^item> \<open>socket.readyState\<close> is a field of the client record. \<open>socket.send\<close> calls are
    logged in \<open>sent\<close>, \<open>socket.ping\<close> calls in \<open>pinged\<close>. An entry \<open>(a, m)\<close> of \<open>sent\<close>
    stands for the call \<open>socket.send(JSON.stringify(m))\<close> on the socket of \<open>a\<close>.
  \<^item> \<open>JSON.stringify\<close> throws a \<open>RangeError\<close> on a value that is nested more deeply than
    the call stack of the engine allows. Which values these are is a matter of the engine:
    the field \<open>stringify_overflows\<close> holds them, and every choice of it is an initial
    state. \<open>send\<close> has no \<open>try\<close>, so the exception leaves the handler; the field
    \<open>uncaught\<close> records it. Node ends the process on an uncaught exception. The events of
    the model stay possible after one, so the model has every run of the server.
  \<^item> \<open>Date.now()\<close> is the parameter \<open>now\<close> of a handler (one reading per handler run).
  \<^item> The result of \<open>JSON.parse\<close> is the parameter \<open>parsed\<close> of \<open>handleMessage\<close>:
    \<open>None\<close> when parsing throws. A number that \<open>JSON.parse\<close> returns is a finite double
    (the doubles are among the rationals), the negative zero, or an infinity for a
    literal beyond the range of the doubles.
\<close>

subsection \<open>Data\<close>

type_synonym cid = string

datatype ready_state = CONNECTING | OPEN | CLOSING | CLOSED

record client =
  client_id :: cid
  readyState :: ready_state
  partnerId :: "cid option"
  wantsChat :: bool
  isAlive :: bool
  connectedAt :: int
  pairedAt :: "int option"

record conversationRecord =
  duration :: int
  endedAt :: int

datatype js_number = Finite rat | NegZero | Infinite bool

datatype json =
    JNull
  | JBool bool
  | JNum js_number
  | JStr string
  | JArr "json list"
  | JObj "(string \<times> json) list"

datatype role = Offerer | Answerer

datatype outgoing =
    Status string
  | Match cid role
  | SignalOut "json option"
  | PartnerLeft
  | Error string

datatype exn = RangeError

record state =
  store :: "cid \<Rightarrow> client option"
  clients :: "cid list"
  waitingQueue :: "cid list"
  totalVisitors :: int
  activeConversations :: int
  conversationHistory :: "conversationRecord list"
  sent :: "(cid \<times> outgoing) list"
  pinged :: "cid list"
  uncaught :: "exn option"
  stringify_overflows :: "json \<Rightarrow> bool"

definition init :: state where
  "init = \<lparr> store = (\<lambda>k. None), clients = [], waitingQueue = [], totalVisitors = 0,
            activeConversations = 0, conversationHistory = [], sent = [], pinged = [],
            uncaught = None, stringify_overflows = (\<lambda>j. False) \<rparr>"

subsection \<open>JavaScript truthiness and property access\<close>

text \<open>\<open>if (client.partnerId)\<close>: an optional string is truthy when it is defined and not empty.\<close>

definition truthy_str :: "string option \<Rightarrow> bool" where
  "truthy_str p = (case p of None \<Rightarrow> False | Some x \<Rightarrow> x \<noteq> [])"

fun falsy :: "json \<Rightarrow> bool" where
  "falsy JNull = True"
| "falsy (JBool b) = (\<not> b)"
| "falsy (JNum n) = (n = Finite 0 \<or> n = NegZero)"
| "falsy (JStr x) = (x = [])"
| "falsy (JArr xs) = False"
| "falsy (JObj kvs) = False"

fun get_prop :: "json \<Rightarrow> string \<Rightarrow> json option" where
  "get_prop (JObj kvs) k = map_of kvs k"
| "get_prop j k = None"

subsection \<open>Heap and registry access\<close>

definition modify :: "cid \<Rightarrow> (client \<Rightarrow> client) \<Rightarrow> state \<Rightarrow> state" where
  "modify a f s = s\<lparr> store := (store s)(a := map_option f (store s a)) \<rparr>"

definition clients_get :: "state \<Rightarrow> cid \<Rightarrow> client option" where
  "clients_get s k = (if k \<in> set (clients s) then store s k else None)"

definition clients_delete :: "cid \<Rightarrow> state \<Rightarrow> state" where
  "clients_delete k s = s\<lparr> clients := removeAll k (clients s) \<rparr>"

subsection \<open>send, removeFromQueue\<close>

text \<open>
  \<open>JSON.stringify(message)\<close> can only overflow the stack on a signal message, whose
  payload is whatever the peer sent; the other messages have a fixed, flat shape. The
  only \<open>send\<close> of a signal message is the last statement of \<open>handleSignal\<close>, which is the last
  thing \<open>handleMessage\<close> does, so no statement of a handler is skipped by the exception.
\<close>

fun stringify_throws :: "state \<Rightarrow> outgoing \<Rightarrow> bool" where
  "stringify_throws s (SignalOut (Some j)) = stringify_overflows s j"
| "stringify_throws s m = False"

definition send :: "cid \<Rightarrow> outgoing \<Rightarrow> state \<Rightarrow> state" where
  "send a m s =
     (case store s a of
        None \<Rightarrow> s
      | Some c \<Rightarrow>
          if readyState c \<noteq> OPEN then s
          else if stringify_throws s m then s\<lparr> uncaught := Some RangeError \<rparr>
          else s\<lparr> sent := sent s @ [(a, m)] \<rparr>)"

text \<open>\<open>indexOf\<close> finds the first occurrence and \<open>splice(index, 1)\<close> removes that one only.\<close>

definition removeFromQueue :: "cid \<Rightarrow> state \<Rightarrow> state" where
  "removeFromQueue k s = s\<lparr> waitingQueue := remove1 k (waitingQueue s) \<rparr>"

subsection \<open>connectPair\<close>

definition connectPair :: "int \<Rightarrow> cid \<Rightarrow> cid \<Rightarrow> state \<Rightarrow> state" where
  "connectPair now offerer answerer s =
     (case (store s offerer, store s answerer) of
        (Some off, Some an) \<Rightarrow>
          let s1 = modify offerer (\<lambda>c. c\<lparr> partnerId := Some (client_id an) \<rparr>) s;
              s2 = modify answerer (\<lambda>c. c\<lparr> partnerId := Some (client_id off) \<rparr>) s1;
              s3 = modify offerer (\<lambda>c. c\<lparr> wantsChat := False \<rparr>) s2;
              s4 = modify answerer (\<lambda>c. c\<lparr> wantsChat := False \<rparr>) s3;
              s5 = modify offerer (\<lambda>c. c\<lparr> pairedAt := Some now \<rparr>) s4;
              s6 = modify answerer (\<lambda>c. c\<lparr> pairedAt := Some now \<rparr>) s5;
              s7 = s6\<lparr> activeConversations := activeConversations s6 + 1 \<rparr>;
              s8 = send offerer (Match (client_id an) Offerer) s7;
              s9 = send answerer (Match (client_id off) Answerer) s8;
              s10 = send offerer (Status ''Connected! Start your video.'') s9
          in send answerer (Status ''Connected! Start your video.'') s10
      | _ \<Rightarrow> s)"

subsection \<open>handleLeave, cleanupClient\<close>

text \<open>
  \<open>if (client.partnerId)\<close> is the case \<open>Some pid\<close> with \<open>pid\<close> not empty, and
  \<open>client.pairedAt && partner.pairedAt\<close> holds when both numbers are defined and not 0.
\<close>

definition record_conversation :: "int \<Rightarrow> int \<Rightarrow> int \<Rightarrow> state \<Rightarrow> state" where
  "record_conversation now t1 t2 s =
     s\<lparr> conversationHistory :=
          conversationHistory s @ [\<lparr> duration = (now - max t1 t2) div 1000, endedAt = now \<rparr>],
        activeConversations := max 0 (activeConversations s - 1) \<rparr>"

definition leave_partner :: "int \<Rightarrow> client \<Rightarrow> state \<Rightarrow> state" where
  "leave_partner now c s =
     (case partnerId c of
        None \<Rightarrow> s
      | Some pid \<Rightarrow>
          if pid = [] then s
          else
            (case clients_get s pid of
               None \<Rightarrow> s
             | Some partner \<Rightarrow>
                 let s1 = (case (pairedAt c, pairedAt partner) of
                             (Some t1, Some t2) \<Rightarrow>
                               if t1 \<noteq> 0 \<and> t2 \<noteq> 0 then record_conversation now t1 t2 s else s
                           | _ \<Rightarrow> s);
                     s2 = modify pid (\<lambda>p. p\<lparr> partnerId := None \<rparr>) s1;
                     s3 = modify pid (\<lambda>p. p\<lparr> pairedAt := None \<rparr>) s2;
                     s4 = send pid PartnerLeft s3
                 in send pid (Status ''Partner disconnected.'') s4))"

definition handleLeave :: "int \<Rightarrow> cid \<Rightarrow> state \<Rightarrow> state" where
  "handleLeave now a s =
     (case store s a of
        None \<Rightarrow> s
      | Some c \<Rightarrow>
          let s1 = removeFromQueue (client_id c) s;
              s2 = leave_partner now c s1
          in modify a (\<lambda>x. x\<lparr> partnerId := None, pairedAt := None, wantsChat := False \<rparr>) s2)"

definition cleanupClient :: "int \<Rightarrow> cid \<Rightarrow> state \<Rightarrow> state" where
  "cleanupClient now k s =
     (case clients_get s k of
        None \<Rightarrow> s
      | Some c \<Rightarrow> clients_delete k (handleLeave now k s))"

subsection \<open>handleReady\<close>

definition ready_wait :: "client \<Rightarrow> cid \<Rightarrow> state \<Rightarrow> state" where
  "ready_wait c a s =
     send a (Status ''Waiting for someone to join...'')
       (s\<lparr> waitingQueue := waitingQueue s @ [client_id c] \<rparr>)"

text \<open>
  The \<open>while\<close> loop of \<open>handleReady\<close>: each round shifts the head off the queue; an empty
  string is falsy and breaks out of the loop; an id that is not registered or whose socket
  is not open is dropped and the loop continues; otherwise the pair is connected and the
  handler returns.
\<close>

function ready_loop :: "int \<Rightarrow> client \<Rightarrow> cid \<Rightarrow> state \<Rightarrow> state" where
  "ready_loop now c a s =
     (case waitingQueue s of
        [] \<Rightarrow> ready_wait c a s
      | p # q \<Rightarrow>
          if p = [] then ready_wait c a (s\<lparr> waitingQueue := q \<rparr>)
          else
            (case clients_get (s\<lparr> waitingQueue := q \<rparr>) p of
               None \<Rightarrow> ready_loop now c a (s\<lparr> waitingQueue := q \<rparr>)
             | Some partner \<Rightarrow>
                 if readyState partner \<noteq> OPEN then ready_loop now c a (s\<lparr> waitingQueue := q \<rparr>)
                 else connectPair now a p (s\<lparr> waitingQueue := q \<rparr>)))"
  by pat_completeness auto
termination
  by (relation "measure (\<lambda>(now, c, a, s). length (waitingQueue s))") auto

declare ready_loop.simps [simp del]

definition handleReady :: "int \<Rightarrow> cid \<Rightarrow> state \<Rightarrow> state" where
  "handleReady now a s =
     (case store s a of
        None \<Rightarrow> s
      | Some c \<Rightarrow>
          if truthy_str (partnerId c) then
            send a (Status ''Already chatting. Leave to find someone new.'') s
          else if client_id c \<in> set (waitingQueue s) then
            send a (Status ''Waiting for the next available partner...'') s
          else ready_loop now c a (modify a (\<lambda>x. x\<lparr> wantsChat := True \<rparr>) s))"

subsection \<open>handleSignal\<close>

definition handleSignal :: "int \<Rightarrow> cid \<Rightarrow> json option \<Rightarrow> state \<Rightarrow> state" where
  "handleSignal now a payload s =
     (case store s a of
        None \<Rightarrow> s
      | Some c \<Rightarrow>
          (case partnerId c of
             None \<Rightarrow> send a (Status ''Waiting for a partner before sending media.'') s
           | Some pid \<Rightarrow>
               if pid = [] then send a (Status ''Waiting for a partner before sending media.'') s
               else
                 (case clients_get s pid of
                    None \<Rightarrow> handleLeave now a s
                  | Some partner \<Rightarrow> send pid (SignalOut payload) s)))"

subsection \<open>handleMessage\<close>

definition handleMessage :: "int \<Rightarrow> cid \<Rightarrow> json option \<Rightarrow> state \<Rightarrow> state" where
  "handleMessage now a parsed s =
     (case parsed of
        None \<Rightarrow> send a (Error ''Invalid JSON payload'') s
      | Some message \<Rightarrow>
          if falsy message then s
          else
            (case get_prop message ''type'' of
               Some (JStr t) \<Rightarrow>
                 if t = ''ready'' then handleReady now a s
                 else if t = ''signal'' then handleSignal now a (get_prop message ''payload'') s
                 else if t = ''leave'' then handleLeave now a s
                 else send a (Error ''Unknown message type'') s
             | _ \<Rightarrow> send a (Error ''Unknown message type'') s))"

subsection \<open>The connection handler and the socket callbacks\<close>

text \<open>
  \<open>wss.on('connection')\<close>: \<open>a\<close> is the id that \<open>nanoid()\<close> returned. \<open>Map.set\<close> keeps the
  position of a key that is already present.
\<close>

definition onConnection :: "int \<Rightarrow> cid \<Rightarrow> state \<Rightarrow> state" where
  \<open>onConnection now a s =
     (let client = \<lparr> client_id = a, readyState = OPEN, partnerId = None, wantsChat = False,
                     isAlive = True, connectedAt = now, pairedAt = None \<rparr>;
          s1 = s\<lparr> store := (store s)(a := Some client),
                  clients := (if a \<in> set (clients s) then clients s else clients s @ [a]) \<rparr>;
          s2 = s1\<lparr> totalVisitors := totalVisitors s1 + 1 \<rparr>
      in send a (Status ''Connected to signaling server. Click "Start" to find someone.'') s2)\<close>

definition onPong :: "cid \<Rightarrow> state \<Rightarrow> state" where
  "onPong a s = modify a (\<lambda>x. x\<lparr> isAlive := True \<rparr>) s"

text \<open>
  The transport (the \<open>ws\<close> library) owns \<open>readyState\<close>. It emits \<open>'close'\<close> with the socket
  in state \<open>CLOSED\<close>, and \<open>'error'\<close> after it has started closing an open socket.
\<close>

definition set_readyState :: "cid \<Rightarrow> ready_state \<Rightarrow> state \<Rightarrow> state" where
  "set_readyState a rs s = modify a (\<lambda>x. x\<lparr> readyState := rs \<rparr>) s"

definition onClose :: "int \<Rightarrow> cid \<Rightarrow> state \<Rightarrow> state" where
  "onClose now a s = cleanupClient now a (set_readyState a CLOSED s)"

definition onError :: "int \<Rightarrow> cid \<Rightarrow> state \<Rightarrow> state" where
  "onError now a s =
     cleanupClient now a
       (modify a (\<lambda>x. x\<lparr> readyState := (if readyState x = OPEN then CLOSING else readyState x) \<rparr>) s)"

subsection \<open>heartbeat\<close>

text \<open>
  \<open>socket.terminate()\<close> leaves a closed socket closed and puts any other into \<open>CLOSING\<close>.
  \<open>socket.ping()\<close> throws only on a socket that is still \<open>CONNECTING\<close>.
\<close>

definition terminate :: "cid \<Rightarrow> state \<Rightarrow> state" where
  "terminate a s =
     modify a (\<lambda>x. x\<lparr> readyState := (if readyState x = CLOSED then CLOSED else CLOSING) \<rparr>) s"

definition ping_throws :: "ready_state \<Rightarrow> bool" where
  "ping_throws rs = (rs = CONNECTING)"

text \<open>
  One round of the \<open>for ... of clients\<close> loop. The iterator of a \<open>Map\<close> skips a key that
  was deleted before its turn, which is the \<open>None\<close> case.
\<close>

definition heartbeat_visit :: "int \<Rightarrow> cid \<Rightarrow> state \<Rightarrow> state" where
  "heartbeat_visit now a s =
     (case clients_get s a of
        None \<Rightarrow> s
      | Some c \<Rightarrow>
          if \<not> isAlive c then cleanupClient now a (terminate a s)
          else
            let s1 = modify a (\<lambda>x. x\<lparr> isAlive := False \<rparr>) s
            in if ping_throws (readyState c) then cleanupClient now a s1
               else s1\<lparr> pinged := pinged s1 @ [a] \<rparr>)"

definition heartbeat :: "int \<Rightarrow> state \<Rightarrow> state" where
  "heartbeat now s = fold (heartbeat_visit now) (clients s) s"

subsection \<open>Events and reachable states\<close>

datatype event =
    Connection int cid
  | Message int cid "json option"
  | Pong cid
  | Close int cid
  | SocketError int cid
  | Transport cid ready_state
  | Heartbeat int

fun step :: "event \<Rightarrow> state \<Rightarrow> state" where
  "step (Connection now a) s = onConnection now a s"
| "step (Message now a parsed) s = handleMessage now a parsed s"
| "step (Pong a) s = onPong a s"
| "step (Close now a) s = onClose now a s"
| "step (SocketError now a) s = onError now a s"
| "step (Transport a rs) s = set_readyState a rs s"
| "step (Heartbeat now) s = heartbeat now s"

text \<open>
  What the environment can do. \<open>nanoid()\<close> returns a non-empty id that no connection has
  had before. The transport delivers \<open>'message'\<close> and \<open>'pong'\<close> only on an open socket; it
  may move a socket to \<open>CLOSING\<close> or \<open>CLOSED\<close> at any time, and emit \<open>'close'\<close> and
  \<open>'error'\<close> for any socket that exists. The timer may fire at any time.
\<close>

definition is_open :: "state \<Rightarrow> cid \<Rightarrow> bool" where
  "is_open s a = (case store s a of None \<Rightarrow> False | Some c \<Rightarrow> readyState c = OPEN)"

fun enabled :: "state \<Rightarrow> event \<Rightarrow> bool" where
  "enabled s (Connection now a) = (a \<noteq> [] \<and> store s a = None)"
| "enabled s (Message now a parsed) = is_open s a"
| "enabled s (Pong a) = is_open s a"
| "enabled s (Close now a) = (store s a \<noteq> None)"
| "enabled s (SocketError now a) = (store s a \<noteq> None)"
| "enabled s (Transport a rs) = (store s a \<noteq> None \<and> (rs = CLOSING \<or> rs = CLOSED))"
| "enabled s (Heartbeat now) = True"

inductive reachable :: "state \<Rightarrow> bool" where
  reachable_start: "reachable (init\<lparr> stringify_overflows := f \<rparr>)"
| reachable_step: "reachable s \<Longrightarrow> enabled s e \<Longrightarrow> reachable (step e s)"

text \<open>Running a list of events, for concrete scenarios.\<close>

fun all_enabled :: "event list \<Rightarrow> state \<Rightarrow> bool" where
  "all_enabled [] s = True"
| "all_enabled (e # es) s = (enabled s e \<and> all_enabled es (step e s))"

definition exec :: "event list \<Rightarrow> state \<Rightarrow> state" where
  "exec es s = fold step es s"

section \<open>Consistency of the shared state\<close>

text \<open>
  The properties that every reachable state has. They speak about the heap, the registry
  and the queue only.
  \<^item> \<open>objs_ok\<close>: an object is stored under its own id, the id is not empty, and no
    socket of the server is \<open>CONNECTING\<close>.
  \<^item> \<open>reg_ok\<close>: the keys of the registry are distinct and each has its object.
  \<^item> \<open>detached_ok\<close>: a client that is no longer registered has a socket that is not
    open, and no partner.
  \<^item> \<open>queue_ok\<close>: the queue has no duplicates and holds registered clients without partner.
  \<^item> \<open>sym_ok\<close>: a partner is another, registered client whose partner points back and
    whose \<open>pairedAt\<close> is the same.
  \<^item> \<open>solo_ok\<close>: \<open>pairedAt\<close> is set exactly when \<open>partnerId\<close> is, and a paired client
    does not want a chat.
\<close>

definition objs_ok :: "state \<Rightarrow> bool" where
  "objs_ok s = (\<forall>a c. store s a = Some c \<longrightarrow> client_id c = a \<and> a \<noteq> [] \<and> readyState c \<noteq> CONNECTING)"

definition reg_ok :: "state \<Rightarrow> bool" where
  "reg_ok s = (distinct (clients s) \<and> (\<forall>a \<in> set (clients s). store s a \<noteq> None))"

definition detached_ok :: "state \<Rightarrow> bool" where
  "detached_ok s = (\<forall>a c. store s a = Some c \<longrightarrow> a \<notin> set (clients s) \<longrightarrow> readyState c \<noteq> OPEN \<and> partnerId c = None)"

definition queue_ok :: "state \<Rightarrow> bool" where
  "queue_ok s = (distinct (waitingQueue s) \<and>
     (\<forall>q \<in> set (waitingQueue s). q \<in> set (clients s) \<and> (\<exists>c. store s q = Some c \<and> partnerId c = None)))"

definition sym_ok :: "state \<Rightarrow> bool" where
  "sym_ok s = (\<forall>a c b. store s a = Some c \<longrightarrow> partnerId c = Some b \<longrightarrow>
      b \<noteq> a \<and> b \<in> set (clients s) \<and> (\<exists>d. store s b = Some d \<and> partnerId d = Some a \<and> pairedAt d = pairedAt c))"

definition solo_ok :: "state \<Rightarrow> bool" where
  "solo_ok s = (\<forall>a c. store s a = Some c \<longrightarrow>
      (partnerId c = None \<longrightarrow> pairedAt c = None) \<and>
      (partnerId c \<noteq> None \<longrightarrow> pairedAt c \<noteq> None \<and> \<not> wantsChat c))"

definition consistent :: "state \<Rightarrow> bool" where
  "consistent s = (objs_ok s \<and> reg_ok s \<and> detached_ok s \<and> queue_ok s \<and> sym_ok s \<and> solo_ok s)"

subsection \<open>Auxiliary notions\<close>

text \<open>
  Abbreviations for the field updates of the handlers: \<open>partner_ref\<close> is the partner that
  \<open>handleLeave\<close> finds in the registry, \<open>unpair\<close> what it does to that partner, \<open>clear\<close>
  what it does to the leaving client, \<open>pair_with\<close> what \<open>connectPair\<close> does to each side,
  and \<open>leave_notices\<close> the messages that \<open>handleLeave\<close> sends.
\<close>

definition partner_ref :: "state \<Rightarrow> client \<Rightarrow> cid option" where
  "partner_ref s c =
     (case partnerId c of
        None \<Rightarrow> None
      | Some pid \<Rightarrow> if pid \<noteq> [] \<and> pid \<in> set (clients s) \<and> store s pid \<noteq> None then Some pid else None)"

definition unpair :: "client \<Rightarrow> client" where
  "unpair p = p\<lparr> partnerId := None, pairedAt := None \<rparr>"

definition clear :: "client \<Rightarrow> client" where
  "clear c = c\<lparr> partnerId := None, pairedAt := None, wantsChat := False \<rparr>"

definition pair_with :: "int \<Rightarrow> cid \<Rightarrow> client \<Rightarrow> client" where
  "pair_with now b c = c\<lparr> partnerId := Some b, wantsChat := False, pairedAt := Some now \<rparr>"

definition leave_notices :: "state \<Rightarrow> client \<Rightarrow> (cid \<times> outgoing) list" where
  "leave_notices s c =
     (case partner_ref s c of
        None \<Rightarrow> []
      | Some pid \<Rightarrow>
          if is_open s pid then [(pid, PartnerLeft), (pid, Status ''Partner disconnected.'')] else [])"

text \<open>
  The test of the loop of \<open>handleReady\<close> on a popped id: it is kept when it is a key of the
  registry and the socket of its client is open.
\<close>

definition valid_entry :: "state \<Rightarrow> cid \<Rightarrow> bool" where
  "valid_entry s p = (case clients_get s p of None \<Rightarrow> False | Some partner \<Rightarrow> readyState partner = OPEN)"

text \<open>
  \<open>quiet_for a s s'\<close>: from \<open>s\<close> to \<open>s'\<close> the client \<open>a\<close> has not been marked alive and has
  not been added to the registry.
\<close>

definition quiet_for :: "cid \<Rightarrow> state \<Rightarrow> state \<Rightarrow> bool" where
  "quiet_for a s s' =
     ((\<forall>c. store s a = Some c \<longrightarrow> (\<exists>c'. store s' a = Some c' \<and> (isAlive c' \<longrightarrow> isAlive c))) \<and>
      (a \<in> set (clients s') \<longrightarrow> a \<in> set (clients s)))"

section \<open>Concrete scenarios\<close>

definition msg_ready :: "json option" where
  "msg_ready = Some (JObj [(''type'', JStr ''ready'')])"

definition msg_leave :: "json option" where
  "msg_leave = Some (JObj [(''type'', JStr ''leave'')])"

definition offer :: json where
  "offer = JObj [(''kind'', JStr ''offer''), (''data'', JStr ''X'')]"

definition msg_signal :: "json option" where
  "msg_signal = Some (JObj [(''type'', JStr ''signal''), (''payload'', offer)])"

text \<open>A connects and asks for a partner.\<close>

definition scenario_waiting :: "event list" where
  "scenario_waiting = [Connection 1000 ''A'', Message 2000 ''A'' msg_ready]"

text \<open>A and B connect, and A asks for a partner.\<close>

definition scenario_a_waits :: "event list" where
  "scenario_a_waits = [Connection 1000 ''A'', Connection 2000 ''B'', Message 3000 ''A'' msg_ready]"

text \<open>A connects and asks for a partner, then B connects and asks for a partner.\<close>

definition scenario_paired :: "event list" where
  "scenario_paired =
     [Connection 1000 ''A'', Connection 2000 ''B'',
      Message 3000 ''A'' msg_ready, Message 4000 ''B'' msg_ready]"


text \<open>
  A and B are partners; one tick passes; only B answers the probe. In the second scenario
  the socket of B then starts closing.
\<close>

definition scenario_silent :: "event list" where
  "scenario_silent = scenario_paired @ [Heartbeat 30000, Pong ''B'']"

definition scenario_silent_closing :: "event list" where
  "scenario_silent_closing = scenario_silent @ [Transport ''B'' CLOSING]"

text \<open>
  A state with a dangling partner reference: B has gone from the registry while A still
  names it as partner. No run of the server reaches such a state.
\<close>

definition dangling :: state where
  "dangling = clients_delete ''B'' (exec scenario_paired init)"

text \<open>
  A state with three queued ids and a client C that is not queued: Z is the id of no
  client, A is registered with a socket that is closing, B is registered with an open
  socket.
\<close>

definition three_clients :: state where
  "three_clients =
     exec [Connection 1000 ''A'', Connection 2000 ''B'', Connection 3000 ''C'',
           Transport ''A'' CLOSING] init"

definition fifo_state :: state where
  "fifo_state = three_clients\<lparr> waitingQueue := [''Z'', ''A'', ''B''] \<rparr>"

section \<open>The text of a signal message\<close>

text \<open>
  What a client sent reaches \<open>handleMessage\<close> as the value of \<open>JSON.parse(raw)\<close>, and what
  a client is sent is the text \<open>JSON.stringify(message)\<close>. Both functions belong to the
  engine. They are described here on a fragment of JSON: the three literals, integers,
  strings of printable ASCII characters, arrays, and objects. \<open>None\<close> stands for a value or
  a text outside the fragment, about which nothing is said; it is not the \<open>SyntaxError\<close>
  of the engine. A value \<open>JObj kvs\<close> lists the properties of the object in the order in
  which the engine enumerates them.
\<close>

subsection \<open>JSON.stringify\<close>

text \<open>
  A string is written between double quotes, with a backslash before a double quote and
  before a backslash. An integer of absolute value up to \<open>2\<^sup>5\<^sup>3\<close> is written in decimal
  digits, negative zero as \<open>0\<close>, an infinity as \<open>null\<close>. Arrays and objects are written
  without any blank. A signal message is an object with the properties \<open>type\<close> and
  \<open>payload\<close>, in this order; a property whose value is \<open>undefined\<close> is left out.
\<close>

definition printable :: "char \<Rightarrow> bool" where
  "printable c = (32 \<le> (of_char c :: int) \<and> (of_char c :: int) \<le> 126)"









subsection \<open>JSON.parse\<close>

text \<open>
  Blanks (space, tab, line feed, carriage return) are allowed around every value and
  around the colon of a property. A string is read up to the next double quote and may
  not contain a backslash. A number is a sequence of digits without a leading zero, up to
  \<open>2\<^sup>5\<^sup>3\<close>. In an object the keys are distinct and none is a sequence of digits, since
  the engine enumerates integer keys first and keeps the first position of a repeated
  key. Each call of the parser counts down a number that starts above twice the length
  of the text; should it run out, the result is \<open>None\<close>.
\<close>

definition is_ws :: "char \<Rightarrow> bool" where
  "is_ws c = (c = CHR 0x20 \<or> c = CHR 0x09 \<or> c = CHR 0x0A \<or> c = CHR 0x0D)"

definition skip_ws :: "string \<Rightarrow> string" where
  "skip_ws cs = dropWhile is_ws cs"

definition is_digit :: "char \<Rightarrow> bool" where
  "is_digit c = (48 \<le> (of_char c :: int) \<and> (of_char c :: int) \<le> 57)"

fun parse_string :: "string \<Rightarrow> (string \<times> string) option" where
  "parse_string [] = None"
| "parse_string (c # cs) =
     (if c = CHR 0x22 then Some ([], cs)
      else if printable c \<and> c \<noteq> CHR 0x5C then
        (case parse_string cs of None \<Rightarrow> None | Some (t, r) \<Rightarrow> Some (c # t, r))
      else None)"

definition parse_number :: "string \<Rightarrow> (json \<times> string) option" where
  "parse_number cs =
     (let ds = takeWhile is_digit cs;
          n = foldl (\<lambda>a d. 10 * a + (of_char d - 48)) (0::int) ds
      in if ds = [] \<or> (1 < length ds \<and> hd ds = CHR ''0'') \<or> 2 ^ 53 < n then None
         else Some (JNum (Finite (of_int n)), dropWhile is_digit cs))"

definition index_like :: "string \<Rightarrow> bool" where
  "index_like k = (k \<noteq> [] \<and> list_all is_digit k)"

definition own_order :: "(string \<times> json) list \<Rightarrow> bool" where
  "own_order kvs = (distinct (map fst kvs) \<and> \<not> list_ex index_like (map fst kvs))"

fun parse_value :: "nat \<Rightarrow> string \<Rightarrow> (json \<times> string) option"
  and parse_elements :: "nat \<Rightarrow> json list \<Rightarrow> string \<Rightarrow> (json \<times> string) option"
  and parse_members :: "nat \<Rightarrow> (string \<times> json) list \<Rightarrow> string \<Rightarrow> (json \<times> string) option"
where
  "parse_value 0 cs = None"
| "parse_value (Suc n) cs =
     (case skip_ws cs of
        [] \<Rightarrow> None
      | c # r \<Rightarrow>
          if c = CHR 0x22 then
            (case parse_string r of None \<Rightarrow> None | Some (x, r1) \<Rightarrow> Some (JStr x, r1))
          else if c = CHR ''['' then
            (case skip_ws r of
               [] \<Rightarrow> None
             | d # r1 \<Rightarrow> if d = CHR '']'' then Some (JArr [], r1) else parse_elements n [] r)
          else if c = CHR ''{'' then
            (case skip_ws r of
               [] \<Rightarrow> None
             | d # r1 \<Rightarrow> if d = CHR ''}'' then Some (JObj [], r1) else parse_members n [] r)
          else if take 4 (c # r) = ''null'' then Some (JNull, drop 3 r)
          else if take 4 (c # r) = ''true'' then Some (JBool True, drop 3 r)
          else if take 5 (c # r) = ''false'' then Some (JBool False, drop 4 r)
          else parse_number (c # r))"
| "parse_elements 0 vs cs = None"
| "parse_elements (Suc n) vs cs =
     (case parse_value n cs of
        None \<Rightarrow> None
      | Some (v, r) \<Rightarrow>
          (case skip_ws r of
             [] \<Rightarrow> None
           | d # r1 \<Rightarrow>
               if d = CHR '','' then parse_elements n (vs @ [v]) r1
               else if d = CHR '']'' then Some (JArr (vs @ [v]), r1)
               else None))"
| "parse_members 0 kvs cs = None"
| "parse_members (Suc n) kvs cs =
     (case skip_ws cs of
        [] \<Rightarrow> None
      | q # r \<Rightarrow>
          if q \<noteq> CHR 0x22 then None
          else
            (case parse_string r of
               None \<Rightarrow> None
             | Some (k, r1) \<Rightarrow>
                 (case skip_ws r1 of
                    [] \<Rightarrow> None
                  | d # r2 \<Rightarrow>
                      if d \<noteq> CHR '':'' then None
                      else
                        (case parse_value n r2 of
                           None \<Rightarrow> None
                         | Some (v, r3) \<Rightarrow>
                             (case skip_ws r3 of
                                [] \<Rightarrow> None
                              | e # r4 \<Rightarrow>
                                  if e = CHR '','' then parse_members n (kvs @ [(k, v)]) r4
                                  else if e = CHR ''}'' \<and> own_order (kvs @ [(k, v)])
                                    then Some (JObj (kvs @ [(k, v)]), r4)
                                  else None)))))"


subsection \<open>Nesting depth\<close>







section \<open>Effects of the primitive operations on the fields of the state\<close>

lemma modify_fields [simp]:
  "store (modify a f s) = (store s)(a := map_option f (store s a))"
  "clients (modify a f s) = clients s"
  "waitingQueue (modify a f s) = waitingQueue s"
  "totalVisitors (modify a f s) = totalVisitors s"
  "activeConversations (modify a f s) = activeConversations s"
  "conversationHistory (modify a f s) = conversationHistory s"
  "sent (modify a f s) = sent s"
  "pinged (modify a f s) = pinged s"
  by (simp_all add: modify_def)

lemma send_fields [simp]:
  "store (send a m s) = store s"
  "clients (send a m s) = clients s"
  "waitingQueue (send a m s) = waitingQueue s"
  "totalVisitors (send a m s) = totalVisitors s"
  "activeConversations (send a m s) = activeConversations s"
  "conversationHistory (send a m s) = conversationHistory s"
  "pinged (send a m s) = pinged s"
  by (simp_all add: send_def split: option.splits)

lemma sent_send:
  "sent (send a m s) = (if is_open s a \<and> \<not> stringify_throws s m then sent s @ [(a, m)] else sent s)"
  by (simp add: send_def is_open_def split: option.splits)

lemma reachable_init: "reachable init"
  using reachable_start [of "stringify_overflows init"] by simp

lemma removeFromQueue_fields [simp]:
  "store (removeFromQueue k s) = store s"
  "clients (removeFromQueue k s) = clients s"
  "waitingQueue (removeFromQueue k s) = remove1 k (waitingQueue s)"
  "totalVisitors (removeFromQueue k s) = totalVisitors s"
  "activeConversations (removeFromQueue k s) = activeConversations s"
  "conversationHistory (removeFromQueue k s) = conversationHistory s"
  "sent (removeFromQueue k s) = sent s"
  "pinged (removeFromQueue k s) = pinged s"
  by (simp_all add: removeFromQueue_def)

lemma clients_delete_fields [simp]:
  "store (clients_delete k s) = store s"
  "clients (clients_delete k s) = removeAll k (clients s)"
  "waitingQueue (clients_delete k s) = waitingQueue s"
  "totalVisitors (clients_delete k s) = totalVisitors s"
  "activeConversations (clients_delete k s) = activeConversations s"
  "conversationHistory (clients_delete k s) = conversationHistory s"
  "sent (clients_delete k s) = sent s"
  "pinged (clients_delete k s) = pinged s"
  by (simp_all add: clients_delete_def)

lemma record_conversation_fields [simp]:
  "store (record_conversation now t1 t2 s) = store s"
  "clients (record_conversation now t1 t2 s) = clients s"
  "waitingQueue (record_conversation now t1 t2 s) = waitingQueue s"
  "totalVisitors (record_conversation now t1 t2 s) = totalVisitors s"
  "activeConversations (record_conversation now t1 t2 s) = max 0 (activeConversations s - 1)"
  "sent (record_conversation now t1 t2 s) = sent s"
  "pinged (record_conversation now t1 t2 s) = pinged s"
  by (simp_all add: record_conversation_def)


lemma connectPair_active:
  "activeConversations (connectPair now a b s) =
     (if store s a \<noteq> None \<and> store s b \<noteq> None then activeConversations s + 1 else activeConversations s)"
  by (auto simp: connectPair_def Let_def split: option.splits)

lemma leave_partner_active:
  "activeConversations (leave_partner now c s) = activeConversations s \<or>
   activeConversations (leave_partner now c s) = max 0 (activeConversations s - 1)"
  by (auto simp: leave_partner_def Let_def split: option.splits)

lemma handleLeave_active:
  "activeConversations (handleLeave now a s) = activeConversations s \<or>
   activeConversations (handleLeave now a s) = max 0 (activeConversations s - 1)"
  using leave_partner_active [of now _ "removeFromQueue _ s"]
  by (auto simp: handleLeave_def Let_def split: option.splits)

lemma handleLeave_nonneg: "0 \<le> activeConversations s \<Longrightarrow> 0 \<le> activeConversations (handleLeave now a s)"
  using handleLeave_active [of now a s] by auto

lemma cleanupClient_nonneg: "0 \<le> activeConversations s \<Longrightarrow> 0 \<le> activeConversations (cleanupClient now a s)"
  by (auto simp: cleanupClient_def handleLeave_nonneg split: option.splits)

lemma ready_wait_active [simp]: "activeConversations (ready_wait c a s) = activeConversations s"
  by (simp add: ready_wait_def)

lemma ready_loop_nonneg: "0 \<le> activeConversations s \<Longrightarrow> 0 \<le> activeConversations (ready_loop now c a s)"
proof (induction now c a s rule: ready_loop.induct)
  case (1 now c a s)
  show ?case
  proof (cases "waitingQueue s")
    case Nil
    then show ?thesis using "1.prems" by (simp add: ready_loop.simps [of now c a s])
  next
    case (Cons p q)
    then show ?thesis using "1.prems" "1.IH"
      by (auto simp: ready_loop.simps [of now c a s] connectPair_active split: option.splits)
  qed
qed

lemma handleReady_nonneg: "0 \<le> activeConversations s \<Longrightarrow> 0 \<le> activeConversations (handleReady now a s)"
  by (auto simp: handleReady_def ready_loop_nonneg split: option.splits)

lemma handleSignal_nonneg: "0 \<le> activeConversations s \<Longrightarrow> 0 \<le> activeConversations (handleSignal now a p s)"
  by (auto simp: handleSignal_def handleLeave_nonneg split: option.splits)

lemma handleMessage_nonneg: "0 \<le> activeConversations s \<Longrightarrow> 0 \<le> activeConversations (handleMessage now a p s)"
  by (auto simp: handleMessage_def handleLeave_nonneg handleSignal_nonneg handleReady_nonneg split: option.splits json.splits)

lemma heartbeat_visit_nonneg: "0 \<le> activeConversations s \<Longrightarrow> 0 \<le> activeConversations (heartbeat_visit now a s)"
  by (auto simp: heartbeat_visit_def Let_def terminate_def cleanupClient_nonneg split: option.splits)

lemma fold_heartbeat_nonneg: "0 \<le> activeConversations s \<Longrightarrow> 0 \<le> activeConversations (fold (heartbeat_visit now) xs s)"
  by (induction xs arbitrary: s) (auto simp: heartbeat_visit_nonneg)

lemma step_nonneg: "0 \<le> activeConversations s \<Longrightarrow> 0 \<le> activeConversations (step e s)"
  by (cases e) (auto simp: onConnection_def Let_def handleMessage_nonneg onPong_def onClose_def onError_def
      set_readyState_def cleanupClient_nonneg heartbeat_def fold_heartbeat_nonneg)

lemma reachable_nonneg: "reachable s \<Longrightarrow> 0 \<le> activeConversations s"
  by (induction rule: reachable.induct) (auto simp: init_def step_nonneg)

lemma exec_reachable: "reachable s \<Longrightarrow> all_enabled es s \<Longrightarrow> reachable (exec es s)"
  unfolding exec_def
  by (induction es arbitrary: s) (auto intro: reachable_step)


section \<open>Every handler keeps the state consistent\<close>

lemma objs_okD: "objs_ok s \<Longrightarrow> store s a = Some c \<Longrightarrow> client_id c = a \<and> a \<noteq> [] \<and> readyState c \<noteq> CONNECTING"
  unfolding objs_ok_def by blast

lemma detached_okD: "detached_ok s \<Longrightarrow> store s a = Some c \<Longrightarrow> a \<notin> set (clients s) \<Longrightarrow> readyState c \<noteq> OPEN \<and> partnerId c = None"
  unfolding detached_ok_def by blast

lemma queue_okD: "queue_ok s \<Longrightarrow> q \<in> set (waitingQueue s) \<Longrightarrow> q \<in> set (clients s) \<and> (\<exists>c. store s q = Some c \<and> partnerId c = None)"
  unfolding queue_ok_def by blast

lemma sym_okD:
  "sym_ok s \<Longrightarrow> store s a = Some c \<Longrightarrow> partnerId c = Some b \<Longrightarrow>
     b \<noteq> a \<and> b \<in> set (clients s) \<and> (\<exists>d. store s b = Some d \<and> partnerId d = Some a \<and> pairedAt d = pairedAt c)"
  unfolding sym_ok_def by blast

lemma solo_okD: "solo_ok s \<Longrightarrow> store s a = Some c \<Longrightarrow>
      (partnerId c = None \<longrightarrow> pairedAt c = None) \<and>
      (partnerId c \<noteq> None \<longrightarrow> pairedAt c \<noteq> None \<and> \<not> wantsChat c)"
  unfolding solo_ok_def by blast

lemma consistent_cong:
  "store s' = store s \<Longrightarrow> clients s' = clients s \<Longrightarrow> waitingQueue s' = waitingQueue s \<Longrightarrow> consistent s' = consistent s"
  by (simp add: consistent_def objs_ok_def reg_ok_def detached_ok_def queue_ok_def sym_ok_def solo_ok_def)

lemma consistent_send [simp]: "consistent (send a m s) = consistent s"
  by (rule consistent_cong) simp_all

lemma consistent_modify:
  assumes "consistent s"
    and f: "\<And>c. store s a = Some c \<Longrightarrow>
        client_id (f c) = client_id c \<and> partnerId (f c) = partnerId c \<and> pairedAt (f c) = pairedAt c \<and>
        (readyState (f c) = OPEN \<longrightarrow> readyState c = OPEN) \<and>
        (readyState (f c) = CONNECTING \<longrightarrow> readyState c = CONNECTING) \<and>
        (wantsChat (f c) \<longrightarrow> wantsChat c \<or> partnerId c = None)"
  shows "consistent (modify a f s)"
proof -
  from assms(1) have o: "objs_ok s" and r: "reg_ok s" and d: "detached_ok s" and q: "queue_ok s"
    and sy: "sym_ok s" and so: "solo_ok s" by (simp_all add: consistent_def)
  have 1: "objs_ok (modify a f s)"
    unfolding objs_ok_def
  proof (intro allI impI)
    fix x c
    assume x: "store (modify a f s) x = Some c"
    then obtain c0 where c0: "store s x = Some c0" and e: "c = (if x = a then f c0 else c0)"
      by (auto split: if_splits)
    show "client_id c = x \<and> x \<noteq> [] \<and> readyState c \<noteq> CONNECTING"
      using objs_okD [OF o c0] f [of c0] c0 e by (cases "x = a") auto
  qed
  have 2: "reg_ok (modify a f s)"
    using r unfolding reg_ok_def by auto
  have 3: "detached_ok (modify a f s)"
    unfolding detached_ok_def using detached_okD [OF d] f by (auto split: if_splits)
  have 4: "queue_ok (modify a f s)"
    unfolding queue_ok_def using q f by (auto simp: queue_ok_def)
  have 5: "sym_ok (modify a f s)"
    unfolding sym_ok_def
  proof (intro allI impI)
    fix x c b
    assume x: "store (modify a f s) x = Some c" and p: "partnerId c = Some b"
    from x obtain c0 where c0: "store s x = Some c0" and pc: "partnerId c0 = partnerId c" "pairedAt c0 = pairedAt c"
      using f by (auto split: if_splits)
    from sym_okD [OF sy c0] pc p obtain d0 where d0: "b \<noteq> x" "b \<in> set (clients s)" "store s b = Some d0"
      "partnerId d0 = Some x" "pairedAt d0 = pairedAt c" by auto
    show "b \<noteq> x \<and> b \<in> set (clients (modify a f s)) \<and>
         (\<exists>d. store (modify a f s) b = Some d \<and> partnerId d = Some x \<and> pairedAt d = pairedAt c)"
      using d0 f by auto
  qed
  have 6: "solo_ok (modify a f s)"
    unfolding solo_ok_def
  proof (intro allI impI)
    fix x c
    assume x: "store (modify a f s) x = Some c"
    then obtain c0 where c0: "store s x = Some c0" and e: "c = (if x = a then f c0 else c0)"
      by (auto split: if_splits)
    show "(partnerId c = None \<longrightarrow> pairedAt c = None) \<and>
          (partnerId c \<noteq> None \<longrightarrow> pairedAt c \<noteq> None \<and> \<not> wantsChat c)"
      using solo_okD [OF so c0] f [of c0] c0 e by (cases "x = a") auto
  qed
  show ?thesis using 1 2 3 4 5 6 by (simp add: consistent_def)
qed

lemma consistent_queue_shrink:
  "consistent s \<Longrightarrow> distinct q \<Longrightarrow> set q \<subseteq> set (waitingQueue s) \<Longrightarrow> consistent (s\<lparr> waitingQueue := q \<rparr>)"
  by (auto simp: consistent_def objs_ok_def reg_ok_def detached_ok_def queue_ok_def sym_ok_def solo_ok_def)

lemma consistent_enqueue:
  "consistent s \<Longrightarrow> a \<in> set (clients s) \<Longrightarrow> store s a = Some c \<Longrightarrow> partnerId c = None \<Longrightarrow>
   a \<notin> set (waitingQueue s) \<Longrightarrow> consistent (s\<lparr> waitingQueue := waitingQueue s @ [a] \<rparr>)"
  by (auto simp: consistent_def objs_ok_def reg_ok_def detached_ok_def queue_ok_def sym_ok_def solo_ok_def)

lemma consistent_delete:
  assumes "consistent s" "store s a = Some c" "readyState c \<noteq> OPEN" "partnerId c = None" "a \<notin> set (waitingQueue s)"
  shows "consistent (clients_delete a s)"
proof -
  from assms(1) have o: "objs_ok s" and r: "reg_ok s" and d: "detached_ok s" and q: "queue_ok s"
    and sy: "sym_ok s" and so: "solo_ok s" by (simp_all add: consistent_def)
  have 1: "objs_ok (clients_delete a s)"
    using o by (simp add: objs_ok_def)
  have 2: "reg_ok (clients_delete a s)"
    using r by (auto simp: reg_ok_def distinct_removeAll)
  have 3: "detached_ok (clients_delete a s)"
    unfolding detached_ok_def using detached_okD [OF d] assms by auto
  have 4: "queue_ok (clients_delete a s)"
    using q assms by (auto simp: queue_ok_def)
  have 5: "sym_ok (clients_delete a s)"
    unfolding sym_ok_def
  proof (intro allI impI)
    fix x cx b
    assume x: "store (clients_delete a s) x = Some cx" and p: "partnerId cx = Some b"
    from sym_okD [OF sy _ p] x obtain d0 where d0: "b \<noteq> x" "b \<in> set (clients s)" "store s b = Some d0"
      "partnerId d0 = Some x" "pairedAt d0 = pairedAt cx" by auto
    from d0 assms have "b \<noteq> a" by auto
    then show "b \<noteq> x \<and> b \<in> set (clients (clients_delete a s)) \<and>
         (\<exists>d. store (clients_delete a s) b = Some d \<and> partnerId d = Some x \<and> pairedAt d = pairedAt cx)"
      using d0 by auto
  qed
  have 6: "solo_ok (clients_delete a s)"
    using so by (simp add: solo_ok_def)
  show ?thesis using 1 2 3 4 5 6 by (simp add: consistent_def)
qed

lemma connectPair_fields [simp]:
  "clients (connectPair now a b s) = clients s"
  "waitingQueue (connectPair now a b s) = waitingQueue s"
  "totalVisitors (connectPair now a b s) = totalVisitors s"
  "conversationHistory (connectPair now a b s) = conversationHistory s"
  "pinged (connectPair now a b s) = pinged s"
  by (auto simp: connectPair_def Let_def split: option.splits)

lemma connectPair_store:
  "store s a = Some ca \<Longrightarrow> store s b = Some cb \<Longrightarrow> a \<noteq> b \<Longrightarrow>
   store (connectPair now a b s) =
     (store s)(a := Some (pair_with now (client_id cb) ca), b := Some (pair_with now (client_id ca) cb))"
  by (auto simp: connectPair_def Let_def pair_with_def fun_eq_iff)

lemma consistent_connectPair:
  assumes "consistent s" "a \<noteq> b"
    and a: "a \<in> set (clients s)" "store s a = Some ca" "partnerId ca = None" "a \<notin> set (waitingQueue s)"
    and b: "b \<in> set (clients s)" "store s b = Some cb" "partnerId cb = None" "b \<notin> set (waitingQueue s)"
  shows "consistent (connectPair now a b s)"
proof -
  let ?s = "connectPair now a b s"
  from assms(1) have o: "objs_ok s" and r: "reg_ok s" and d: "detached_ok s" and q: "queue_ok s"
    and sy: "sym_ok s" and so: "solo_ok s" by (simp_all add: consistent_def)
  have ia: "client_id ca = a" and ib: "client_id cb = b"
    using objs_okD [OF o] a b by auto
  have st: "store ?s = (store s)(a := Some (pair_with now b ca), b := Some (pair_with now a cb))"
    using connectPair_store [OF a(2) b(2) assms(2)] ia ib by simp
  have 1: "objs_ok ?s"
    unfolding objs_ok_def using objs_okD [OF o] a b by (auto simp: st pair_with_def split: if_splits)
  have 2: "reg_ok ?s"
    using r by (auto simp: reg_ok_def st)
  have 3: "detached_ok ?s"
    unfolding detached_ok_def using detached_okD [OF d] a b by (auto simp: st split: if_splits)
  have 4: "queue_ok ?s"
    using q a b by (auto simp: queue_ok_def st)
  have 5: "sym_ok ?s"
    unfolding sym_ok_def
  proof (intro allI impI)
    fix x cx y
    assume x: "store ?s x = Some cx" and p: "partnerId cx = Some y"
    show "y \<noteq> x \<and> y \<in> set (clients ?s) \<and>
         (\<exists>d. store ?s y = Some d \<and> partnerId d = Some x \<and> pairedAt d = pairedAt cx)"
    proof (cases "x = a \<or> x = b")
      case True
      then show ?thesis using x p assms(2) a b by (auto simp: st pair_with_def)
    next
      case False
      with x have sx: "store s x = Some cx" by (simp add: st)
      from sym_okD [OF sy sx p] obtain d0 where d0: "y \<noteq> x" "y \<in> set (clients s)" "store s y = Some d0"
        "partnerId d0 = Some x" "pairedAt d0 = pairedAt cx" by auto
      from d0 a b have "y \<noteq> a" "y \<noteq> b" by auto
      then show ?thesis using d0 by (simp add: st)
    qed
  qed
  have 6: "solo_ok ?s"
    unfolding solo_ok_def
  proof (intro allI impI)
    fix x c
    assume x: "store ?s x = Some c"
    show "(partnerId c = None \<longrightarrow> pairedAt c = None) \<and>
          (partnerId c \<noteq> None \<longrightarrow> pairedAt c \<noteq> None \<and> \<not> wantsChat c)"
    proof (cases "x = a \<or> x = b")
      case True
      then show ?thesis using x by (auto simp: st pair_with_def split: if_splits)
    next
      case False
      with x have "store s x = Some c" by (simp add: st)
      from solo_okD [OF so this] show ?thesis .
    qed
  qed
  show ?thesis using 1 2 3 4 5 6 by (simp add: consistent_def)
qed

lemma leave_partner_store:
  "store (leave_partner now c s) =
     (\<lambda>x. if partner_ref s c = Some x then map_option unpair (store s x) else store s x)"
  unfolding leave_partner_def partner_ref_def clients_get_def Let_def unpair_def
  by (auto split: option.splits simp: fun_eq_iff)

lemma leave_partner_fields [simp]:
  "clients (leave_partner now c s) = clients s"
  "waitingQueue (leave_partner now c s) = waitingQueue s"
  "totalVisitors (leave_partner now c s) = totalVisitors s"
  "pinged (leave_partner now c s) = pinged s"
  unfolding leave_partner_def Let_def
  by (auto split: option.splits)

lemma partner_ref_removeFromQueue [simp]: "partner_ref (removeFromQueue k s) c = partner_ref s c"
  by (simp add: partner_ref_def split: option.splits)

lemma clear_unpair [simp]: "clear (unpair c) = clear c"
  by (simp add: clear_def unpair_def)

lemma handleLeave_store:
  "store s a = Some c \<Longrightarrow>
   store (handleLeave now a s) =
     (\<lambda>x. if x = a then Some (clear c)
          else if partner_ref s c = Some x then map_option unpair (store s x) else store s x)"
  unfolding handleLeave_def Let_def
  by (auto simp: leave_partner_store fun_eq_iff clear_def unpair_def)

lemma handleLeave_fields:
  "clients (handleLeave now a s) = clients s"
  "store s a = Some c \<Longrightarrow> waitingQueue (handleLeave now a s) = remove1 (client_id c) (waitingQueue s)"
  "store s a = None \<Longrightarrow> handleLeave now a s = s"
  "totalVisitors (handleLeave now a s) = totalVisitors s"
  "pinged (handleLeave now a s) = pinged s"
  unfolding handleLeave_def Let_def
  by (auto split: option.splits)

lemma partner_ref_consistent:
  assumes "consistent s" "store s a = Some c"
  shows "partner_ref s c = partnerId c"
proof (cases "partnerId c")
  case None
  then show ?thesis by (simp add: partner_ref_def)
next
  case (Some b)
  from assms(1) have o: "objs_ok s" and sy: "sym_ok s" by (simp_all add: consistent_def)
  from sym_okD [OF sy assms(2) Some] obtain d where d: "b \<in> set (clients s)" "store s b = Some d" by auto
  with objs_okD [OF o d(2)] Some show ?thesis by (simp add: partner_ref_def)
qed

lemma consistent_handleLeave:
  assumes "consistent s"
  shows "consistent (handleLeave now a s)"
proof (cases "store s a")
  case None
  then show ?thesis using assms by (simp add: handleLeave_fields)
next
  case (Some c)
  let ?s = "handleLeave now a s"
  from assms(1) have o: "objs_ok s" and r: "reg_ok s" and d: "detached_ok s" and q: "queue_ok s"
    and sy: "sym_ok s" and so: "solo_ok s" by (simp_all add: consistent_def)
  have ia: "client_id c = a" using objs_okD [OF o Some] by simp
  have st: "store ?s = (\<lambda>x. if x = a then Some (clear c)
          else if partnerId c = Some x then map_option unpair (store s x) else store s x)"
  proof -
    have pr: "partner_ref s c = partnerId c" by (rule partner_ref_consistent [OF assms Some])
    show ?thesis unfolding handleLeave_store [OF Some] pr ..
  qed
  have cl: "clients ?s = clients s" by (simp add: handleLeave_fields)
  have qu: "waitingQueue ?s = remove1 a (waitingQueue s)"
    using handleLeave_fields(2) [OF Some] ia by simp
  have fr: "\<exists>c0. store s x = Some c0 \<and> client_id cx = client_id c0 \<and> readyState cx = readyState c0 \<and>
                (partnerId cx = None \<or> partnerId cx = partnerId c0)"
    if "store ?s x = Some cx" for x cx
    using that Some by (auto simp: st clear_def unpair_def split: if_splits)
  have 1: "objs_ok ?s"
    unfolding objs_ok_def using objs_okD [OF o] fr by metis
  have 2: "reg_ok ?s"
    using r Some by (auto simp: reg_ok_def st cl)
  have 3: "detached_ok ?s"
    unfolding detached_ok_def cl using detached_okD [OF d] fr by metis
  have 4: "queue_ok ?s"
    unfolding queue_ok_def
  proof (rule conjI; (rule ballI)?)
    show "distinct (waitingQueue ?s)" using q by (simp add: qu queue_ok_def)
  next
    fix x assume "x \<in> set (waitingQueue ?s)"
    then have x: "x \<in> set (waitingQueue s)" using set_remove1_subset [of a "waitingQueue s"] by (auto simp: qu)
    from queue_okD [OF q x] obtain cx where "x \<in> set (clients s)" "store s x = Some cx" "partnerId cx = None"
      by auto
    then show "x \<in> set (clients ?s) \<and> (\<exists>c. store ?s x = Some c \<and> partnerId c = None)"
      by (auto simp: st cl clear_def unpair_def)
  qed
  have 5: "sym_ok ?s"
    unfolding sym_ok_def
  proof (intro allI impI)
    fix x cx y
    assume 1: "store ?s x = Some cx" and 2: "partnerId cx = Some y"
    from 1 2 have xa: "x \<noteq> a"
      by (auto simp: st clear_def)
    from 1 2 xa have np: "partnerId c \<noteq> Some x" and sx: "store s x = Some cx"
      by (auto simp: st unpair_def split: if_splits)
    from sym_okD [OF sy sx 2] obtain d0 where d0: "y \<noteq> x" "y \<in> set (clients s)" "store s y = Some d0"
      "partnerId d0 = Some x" "pairedAt d0 = pairedAt cx"
      by blast
    have ya: "y \<noteq> a" using d0 Some np by auto
    have "partnerId c \<noteq> Some y"
    proof
      assume "partnerId c = Some y"
      from sym_okD [OF sy Some this] d0 have "x = a" by auto
      with xa show False by simp
    qed
    then show "y \<noteq> x \<and> y \<in> set (clients ?s) \<and>
         (\<exists>d. store ?s y = Some d \<and> partnerId d = Some x \<and> pairedAt d = pairedAt cx)"
      using d0 ya by (simp add: st cl)
  qed
  have 6: "solo_ok ?s"
    unfolding solo_ok_def
  proof (intro allI impI)
    fix x cx
    assume x: "store ?s x = Some cx"
    show "(partnerId cx = None \<longrightarrow> pairedAt cx = None) \<and>
          (partnerId cx \<noteq> None \<longrightarrow> pairedAt cx \<noteq> None \<and> \<not> wantsChat cx)"
    proof (cases "x = a \<or> partnerId c = Some x")
      case True
      then show ?thesis using x by (auto simp: st clear_def unpair_def split: if_splits)
    next
      case False
      with x have "store s x = Some cx" by (simp add: st)
      from solo_okD [OF so this] show ?thesis .
    qed
  qed
  show ?thesis using 1 2 3 4 5 6 by (simp add: consistent_def)
qed

lemma open_registered:
  assumes "consistent s" "is_open s a"
  shows "a \<in> set (clients s)"
proof -
  from assms(2) obtain c where c: "store s a = Some c" "readyState c = OPEN"
    by (auto simp: is_open_def split: option.splits)
  from assms(1) have "detached_ok s" by (simp add: consistent_def)
  from detached_okD [OF this c(1)] c(2) show ?thesis by blast
qed

lemma no_empty_partner:
  assumes "consistent s" "store s a = Some c"
  shows "partnerId c \<noteq> Some []"
proof
  assume p: "partnerId c = Some []"
  from assms(1) have o: "objs_ok s" and sy: "sym_ok s" by (simp_all add: consistent_def)
  from sym_okD [OF sy assms(2) p] obtain d where "store s [] = Some d" by auto
  from objs_okD [OF o this] show False by simp
qed

lemma consistent_cleanupClient:
  assumes "consistent s" "\<not> is_open s a"
  shows "consistent (cleanupClient now a s)"
proof (cases "clients_get s a")
  case None
  then show ?thesis using assms by (simp add: cleanupClient_def)
next
  case (Some c)
  then have c: "store s a = Some c" by (auto simp: clients_get_def split: if_splits)
  from assms(1) have o: "objs_ok s" and q: "queue_ok s" by (simp_all add: consistent_def)
  have ia: "client_id c = a" using objs_okD [OF o c] by simp
  let ?s = "handleLeave now a s"
  have 1: "consistent ?s" using assms(1) by (rule consistent_handleLeave)
  have 2: "store ?s a = Some (clear c)" by (simp add: handleLeave_store [OF c])
  have 3: "readyState (clear c) \<noteq> OPEN" using assms(2) c by (simp add: is_open_def clear_def)
  have 4: "partnerId (clear c) = None" by (simp add: clear_def)
  have 5: "a \<notin> set (waitingQueue ?s)"
    using q handleLeave_fields(2) [OF c, of now] ia by (simp add: queue_ok_def)
  show ?thesis
    using consistent_delete [OF 1 2 3 4 5] Some by (simp add: cleanupClient_def)
qed

lemma consistent_ready_wait:
  assumes "consistent s" "a \<in> set (clients s)" "store s a = Some c0" "partnerId c0 = None"
    "a \<notin> set (waitingQueue s)" "client_id c = a"
  shows "consistent (ready_wait c a s)"
  using consistent_enqueue [OF assms(1-5)] assms(6) by (simp add: ready_wait_def)

lemma consistent_ready_loop:
  "consistent s \<Longrightarrow> a \<in> set (clients s) \<Longrightarrow> store s a = Some c0 \<Longrightarrow> partnerId c0 = None \<Longrightarrow>
   a \<notin> set (waitingQueue s) \<Longrightarrow> client_id c = a \<Longrightarrow> consistent (ready_loop now c a s)"
proof (induction now c a s rule: ready_loop.induct)
  case (1 now c a s)
  show ?case
  proof (cases "waitingQueue s")
    case Nil
    then show ?thesis
      using consistent_ready_wait [OF "1.prems"] by (simp add: ready_loop.simps [of now c a s])
  next
    case (Cons p q)
    let ?s = "s\<lparr> waitingQueue := q \<rparr>"
    from "1.prems"(1) have qo: "queue_ok s" by (simp add: consistent_def)
    have dq: "distinct q" "p \<notin> set q" "set q \<subseteq> set (waitingQueue s)"
      using qo Cons by (auto simp: queue_ok_def)
    have cs: "consistent ?s" using consistent_queue_shrink [OF "1.prems"(1) dq(1) dq(3)] .
    have pre: "a \<in> set (clients ?s)" "store ?s a = Some c0" "a \<notin> set (waitingQueue ?s)"
      using "1.prems" Cons by auto
    have ap: "a \<noteq> p" using "1.prems"(5) Cons by auto
    show ?thesis
    proof (cases "p = []")
      case True
      then show ?thesis
        using consistent_ready_wait [OF cs pre(1,2) "1.prems"(4) pre(3) "1.prems"(6)] Cons
        by (simp add: ready_loop.simps [of now c a s])
    next
      case pne: False
      show ?thesis
      proof (cases "clients_get ?s p")
        case None
        then show ?thesis
          using "1.IH"(1) [OF Cons pne None cs pre(1,2) "1.prems"(4) pre(3) "1.prems"(6)] Cons pne
          by (simp add: ready_loop.simps [of now c a s])
      next
        case (Some partner)
        show ?thesis
        proof (cases "readyState partner = OPEN")
          case False
          then show ?thesis
            using "1.IH"(2) [OF Cons pne Some _ cs pre(1,2) "1.prems"(4) pre(3) "1.prems"(6)] Cons pne Some
            by (simp add: ready_loop.simps [of now c a s])
        next
          case True
          from Some have pr: "p \<in> set (clients ?s)" "store ?s p = Some partner"
            by (auto simp: clients_get_def split: if_splits)
          from queue_okD [OF qo, of p] Cons pr have pp: "partnerId partner = None" by auto
          have "consistent (connectPair now a p ?s)"
            using consistent_connectPair [OF cs ap pre(1,2) "1.prems"(4) pre(3) pr pp] dq(2) by simp
          then show ?thesis using Cons pne Some True
            by (simp add: ready_loop.simps [of now c a s])
        qed
      qed
    qed
  qed
qed

lemma consistent_handleReady:
  assumes "consistent s" "a \<in> set (clients s)"
  shows "consistent (handleReady now a s)"
proof (cases "store s a")
  case None
  then show ?thesis using assms by (simp add: handleReady_def)
next
  case (Some c)
  from assms(1) have o: "objs_ok s" by (simp add: consistent_def)
  have ia: "client_id c = a" using objs_okD [OF o Some] by simp
  show ?thesis
  proof (cases "truthy_str (partnerId c) \<or> a \<in> set (waitingQueue s)")
    case True
    then show ?thesis using assms Some ia by (auto simp: handleReady_def)
  next
    case False
    then have pn: "partnerId c = None"
      using no_empty_partner [OF assms(1) Some] by (auto simp: truthy_str_def split: option.splits)
    let ?s = "modify a (\<lambda>x. x\<lparr> wantsChat := True \<rparr>) s"
    have 1: "consistent ?s" using assms(1) pn Some by (intro consistent_modify) auto
    have 2: "store ?s a = Some (c\<lparr> wantsChat := True \<rparr>)" using Some by simp
    have "consistent (ready_loop now c a ?s)"
      using consistent_ready_loop [OF 1 _ 2 _ _ ia] assms(2) pn False by simp
    then show ?thesis using False Some ia by (simp add: handleReady_def)
  qed
qed

lemma consistent_handleSignal: "consistent s \<Longrightarrow> consistent (handleSignal now a p s)"
  by (auto simp: handleSignal_def consistent_handleLeave split: option.splits)

lemma consistent_handleMessage:
  "consistent s \<Longrightarrow> a \<in> set (clients s) \<Longrightarrow> consistent (handleMessage now a p s)"
  by (auto simp: handleMessage_def consistent_handleLeave consistent_handleSignal consistent_handleReady
      split: option.splits json.splits)

lemma consistent_onConnection:
  assumes "consistent s" "a \<noteq> []" "store s a = None"
  shows "consistent (onConnection now a s)"
proof -
  let ?c = "\<lparr> client_id = a, readyState = OPEN, partnerId = None, wantsChat = False,
              isAlive = True, connectedAt = now, pairedAt = None \<rparr>"
  let ?s = "onConnection now a s"
  from assms(1) have o: "objs_ok s" and r: "reg_ok s" and d: "detached_ok s" and q: "queue_ok s"
    and sy: "sym_ok s" and so: "solo_ok s" by (simp_all add: consistent_def)
  have na: "a \<notin> set (clients s)" using r assms(3) by (auto simp: reg_ok_def)
  have st: "store ?s = (store s)(a := Some ?c)" by (simp add: onConnection_def Let_def)
  have cl: "clients ?s = clients s @ [a]" using na by (simp add: onConnection_def Let_def)
  have qu: "waitingQueue ?s = waitingQueue s" by (simp add: onConnection_def Let_def)
  have 1: "objs_ok ?s"
    unfolding objs_ok_def using objs_okD [OF o] assms(2) by (auto simp: st split: if_splits)
  have 2: "reg_ok ?s"
    using r na by (auto simp: reg_ok_def st cl)
  have 3: "detached_ok ?s"
    unfolding detached_ok_def using detached_okD [OF d] by (auto simp: st cl split: if_splits)
  have 4: "queue_ok ?s"
    using q na by (auto simp: queue_ok_def st cl qu)
  have 5: "sym_ok ?s"
    unfolding sym_ok_def
  proof (intro allI impI)
    fix x cx y
    assume x: "store ?s x = Some cx" and p: "partnerId cx = Some y"
    from x p have sx: "store s x = Some cx" by (auto simp: st split: if_splits)
    from sym_okD [OF sy sx p] obtain d0 where d0: "y \<noteq> x" "y \<in> set (clients s)" "store s y = Some d0"
      "partnerId d0 = Some x" "pairedAt d0 = pairedAt cx" by auto
    from d0 assms(3) have "y \<noteq> a" by auto
    then show "y \<noteq> x \<and> y \<in> set (clients ?s) \<and>
         (\<exists>d. store ?s y = Some d \<and> partnerId d = Some x \<and> pairedAt d = pairedAt cx)"
      using d0 by (simp add: st cl)
  qed
  have 6: "solo_ok ?s"
    unfolding solo_ok_def using solo_okD [OF so] by (auto simp: st split: if_splits)
  show ?thesis using 1 2 3 4 5 6 by (simp add: consistent_def)
qed

lemma consistent_set_readyState:
  "consistent s \<Longrightarrow> rs = CLOSING \<or> rs = CLOSED \<Longrightarrow> consistent (set_readyState a rs s)"
  unfolding set_readyState_def by (rule consistent_modify) auto

lemma is_open_modify:
  "is_open (modify a f s) x =
     (if x = a then (case store s a of None \<Rightarrow> False | Some c \<Rightarrow> readyState (f c) = OPEN) else is_open s x)"
  by (simp add: is_open_def split: option.splits)

lemma consistent_onClose: "consistent s \<Longrightarrow> consistent (onClose now a s)"
  unfolding onClose_def
  by (intro consistent_cleanupClient consistent_set_readyState)
     (auto simp: set_readyState_def is_open_modify split: option.splits)

lemma consistent_onError: "consistent s \<Longrightarrow> consistent (onError now a s)"
  unfolding onError_def
  by (intro consistent_cleanupClient consistent_modify)
     (auto simp: is_open_modify objs_okD consistent_def split: option.splits)

lemma consistent_heartbeat_visit:
  assumes "consistent s"
  shows "consistent (heartbeat_visit now a s)"
proof (cases "clients_get s a")
  case None
  then show ?thesis using assms by (simp add: heartbeat_visit_def)
next
  case (Some c)
  then have c: "store s a = Some c" by (auto simp: clients_get_def split: if_splits)
  from assms have o: "objs_ok s" by (simp add: consistent_def)
  have nc: "\<not> ping_throws (readyState c)" using objs_okD [OF o c] by (simp add: ping_throws_def)
  show ?thesis
  proof (cases "isAlive c")
    case False
    have "consistent (terminate a s)"
      unfolding terminate_def using assms objs_okD [OF o] by (intro consistent_modify) auto
    moreover have "\<not> is_open (terminate a s) a"
      by (simp add: terminate_def is_open_modify c)
    ultimately show ?thesis using Some False
      by (simp add: heartbeat_visit_def consistent_cleanupClient)
  next
    case True
    let ?s = "modify a (\<lambda>x. x\<lparr> isAlive := False \<rparr>) s"
    have 1: "consistent ?s" using assms objs_okD [OF o] by (intro consistent_modify) auto
    have "consistent (?s\<lparr> pinged := pinged ?s @ [a] \<rparr>) = consistent ?s"
      by (rule consistent_cong) simp_all
    then show ?thesis using Some True nc 1
      by (simp add: heartbeat_visit_def Let_def)
  qed
qed

lemma consistent_heartbeat: "consistent s \<Longrightarrow> consistent (heartbeat now s)"
proof -
  have "consistent s \<Longrightarrow> consistent (fold (heartbeat_visit now) xs s)" for xs
    by (induction xs arbitrary: s) (auto simp: consistent_heartbeat_visit)
  then show "consistent s \<Longrightarrow> consistent (heartbeat now s)"
    by (simp add: heartbeat_def)
qed

lemma consistent_onPong: "consistent s \<Longrightarrow> consistent (onPong a s)"
  unfolding onPong_def using objs_okD by (intro consistent_modify) (auto simp: consistent_def)

lemma consistent_init: "consistent init"
  by (simp add: consistent_def objs_ok_def reg_ok_def detached_ok_def queue_ok_def sym_ok_def solo_ok_def init_def)

lemma consistent_step: "consistent s \<Longrightarrow> enabled s e \<Longrightarrow> consistent (step e s)"
  by (cases e)
     (auto simp: consistent_onConnection consistent_handleMessage open_registered consistent_onPong
        consistent_onClose consistent_onError consistent_set_readyState consistent_heartbeat)

lemma consistent_start: "consistent (init\<lparr> stringify_overflows := f \<rparr>)"
proof -
  have "consistent (init\<lparr> stringify_overflows := f \<rparr>) = consistent init"
    by (rule consistent_cong) simp_all
  then show ?thesis by (simp add: consistent_init)
qed

lemma reachable_consistent: "reachable s \<Longrightarrow> consistent s"
  by (induction rule: reachable.induct) (auto simp: consistent_start consistent_step)

section \<open>The counter of active conversations\<close>

text \<open>
  C10. The counter of active conversations is never negative. It is 0 in the initial
  state; \<open>connectPair\<close> on two existing clients adds exactly one; \<open>handleLeave\<close> either
  leaves it alone or replaces \<open>n\<close> by \<open>max 0 (n - 1)\<close>, and it does the latter when the
  leaving client has a registered partner and both sides have a non-zero \<open>pairedAt\<close>;
  every event keeps a non-negative counter non-negative, so the counter is non-negative
  in every reachable state.
\<close>

theorem active_conversations_nonneg:
  "activeConversations init = 0 \<and>
   (store s a \<noteq> None \<and> store s b \<noteq> None \<longrightarrow>
      activeConversations (connectPair now a b s) = activeConversations s + 1) \<and>
   (activeConversations (handleLeave now a s) = activeConversations s \<or>
    activeConversations (handleLeave now a s) = max 0 (activeConversations s - 1)) \<and>
   (store s a = Some c \<and> partnerId c = Some b \<and> b \<noteq> [] \<and> clients_get s b = Some d \<and>
    pairedAt c = Some t1 \<and> pairedAt d = Some t2 \<and> t1 \<noteq> 0 \<and> t2 \<noteq> 0 \<longrightarrow>
      activeConversations (handleLeave now a s) = max 0 (activeConversations s - 1)) \<and>
   (0 \<le> activeConversations s \<longrightarrow> 0 \<le> activeConversations (step e s)) \<and>
   (reachable s \<longrightarrow> 0 \<le> activeConversations s)"
proof -
  have "activeConversations init = 0"
    by (simp add: init_def)
  moreover have "store s a \<noteq> None \<and> store s b \<noteq> None \<longrightarrow>
      activeConversations (connectPair now a b s) = activeConversations s + 1"
    by (simp add: connectPair_active)
  moreover have "store s a = Some c \<and> partnerId c = Some b \<and> b \<noteq> [] \<and> clients_get s b = Some d \<and>
    pairedAt c = Some t1 \<and> pairedAt d = Some t2 \<and> t1 \<noteq> 0 \<and> t2 \<noteq> 0 \<longrightarrow>
      activeConversations (handleLeave now a s) = max 0 (activeConversations s - 1)"
    by (auto simp: handleLeave_def leave_partner_def clients_get_def Let_def)
  ultimately show ?thesis
    using handleLeave_active [of now a s] step_nonneg [of s e] reachable_nonneg [of s]
    by blast
qed

theorem active_conversations_nonneg_witness:
  "reachable (exec scenario_paired init) \<and>
   activeConversations (exec scenario_paired init) = 1 \<and>
   activeConversations (connectPair 5000 ''A'' ''B'' (exec scenario_paired init)) = 2 \<and>
   activeConversations (handleLeave 5000 ''A'' (exec scenario_paired init)) = 0 \<and>
   0 \<le> activeConversations (step (Message 5000 ''A'' msg_leave) (exec scenario_paired init))"
proof -
  let ?s = "exec scenario_paired init"
  have en: "all_enabled scenario_paired init"
    by code_simp
  have r: "reachable ?s"
    using exec_reachable [OF reachable_init en] .
  have n: "activeConversations ?s = 1"
    by code_simp
  have ex: "store ?s ''A'' \<noteq> None \<and> store ?s ''B'' \<noteq> None"
    by code_simp
  have pa: "store ?s ''A'' = Some (the (store ?s ''A'')) \<and>
            partnerId (the (store ?s ''A'')) = Some ''B'' \<and> ''B'' \<noteq> [] \<and>
            clients_get ?s ''B'' = Some (the (store ?s ''B'')) \<and>
            pairedAt (the (store ?s ''A'')) = Some 4000 \<and>
            pairedAt (the (store ?s ''B'')) = Some 4000 \<and> (4000::int) \<noteq> 0"
    by code_simp
  note t = active_conversations_nonneg [of ?s "''A''" "''B''" 5000 "the (store ?s ''A'')"
      "the (store ?s ''B'')" 4000 4000 "Message 5000 ''A'' msg_leave"]
  show ?thesis
    using t r n ex pa by simp
qed

section \<open>Pairing symmetry\<close>

text \<open>
  C1. In every reachable state, a client without partner has no \<open>pairedAt\<close>, and a client
  \<open>a\<close> whose \<open>partnerId\<close> is \<open>b\<close> is registered, \<open>b\<close> is another registered client with a
  non-empty id, the \<open>partnerId\<close> of \<open>b\<close> is the id of \<open>a\<close>, and both sides carry the same
  \<open>pairedAt\<close>. The states between two handler runs are the reachable states, so no such
  state has exactly one side paired.
\<close>

theorem pairing_symmetry:
  assumes "reachable s" "store s a = Some c"
  shows "(partnerId c = None \<longrightarrow> pairedAt c = None) \<and>
         (partnerId c = Some b \<longrightarrow>
            client_id c = a \<and> a \<in> set (clients s) \<and> b \<in> set (clients s) \<and> b \<noteq> a \<and> b \<noteq> [] \<and>
            (\<exists>d. store s b = Some d \<and> partnerId d = Some (client_id c) \<and>
                 pairedAt d = pairedAt c \<and> pairedAt c \<noteq> None))"
proof -
  from reachable_consistent [OF assms(1)] have o: "objs_ok s" and sy: "sym_ok s" and so: "solo_ok s"
    by (simp_all add: consistent_def)
  have ia: "client_id c = a" using objs_okD [OF o assms(2)] by simp
  have 1: "partnerId c = None \<longrightarrow> pairedAt c = None"
    using solo_okD [OF so assms(2)] by simp
  have 2: "client_id c = a \<and> a \<in> set (clients s) \<and> b \<in> set (clients s) \<and> b \<noteq> a \<and> b \<noteq> [] \<and>
            (\<exists>d. store s b = Some d \<and> partnerId d = Some (client_id c) \<and>
                 pairedAt d = pairedAt c \<and> pairedAt c \<noteq> None)" if p: "partnerId c = Some b"
  proof -
    from sym_okD [OF sy assms(2) p] obtain d where d: "b \<noteq> a" "b \<in> set (clients s)" "store s b = Some d"
      "partnerId d = Some a" "pairedAt d = pairedAt c" by auto
    from sym_okD [OF sy d(3,4)] have "a \<in> set (clients s)" by simp
    moreover have "b \<noteq> []" using objs_okD [OF o d(3)] by simp
    moreover have "pairedAt c \<noteq> None" using solo_okD [OF so assms(2)] p by simp
    ultimately show ?thesis using d ia by simp
  qed
  show ?thesis using 1 2 by blast
qed

theorem pairing_symmetry_witness:
  "reachable (exec scenario_paired init) \<and>
   store (exec scenario_paired init) ''A'' = Some (the (store (exec scenario_paired init) ''A'')) \<and>
   partnerId (the (store (exec scenario_paired init) ''A'')) = Some ''B'' \<and>
   ''B'' \<in> set (clients (exec scenario_paired init)) \<and>
   partnerId (the (store (exec scenario_paired init) ''B'')) = Some ''A'' \<and>
   pairedAt (the (store (exec scenario_paired init) ''B'')) = Some 4000"
proof -
  let ?s = "exec scenario_paired init"
  have en: "all_enabled scenario_paired init"
    by code_simp
  have r: "reachable ?s"
    using exec_reachable [OF reachable_init en] .
  have a: "store ?s ''A'' = Some (the (store ?s ''A''))"
    by code_simp
  have p: "partnerId (the (store ?s ''A'')) = Some ''B''" "client_id (the (store ?s ''A'')) = ''A''"
      "pairedAt (the (store ?s ''A'')) = Some 4000"
    by code_simp+
  show ?thesis
    using pairing_symmetry [OF r a, of "''B''"] r a p by auto
qed

section \<open>No self-pairing\<close>

text \<open>
  C7. In every reachable state no client is its own partner; no enabled event makes a
  client its own partner; and a \<open>ready\<close> from a client that is in the queue (for instance
  as its only entry) leaves that client without partner and the queue as it was.
\<close>

theorem no_self_pairing:
  assumes "reachable s"
  shows "(store s a = Some c \<longrightarrow> partnerId c \<noteq> Some a \<and> partnerId c \<noteq> Some (client_id c)) \<and>
         (enabled s e \<and> store (step e s) a = Some c' \<longrightarrow> partnerId c' \<noteq> Some a) \<and>
         (a \<in> set (waitingQueue s) \<and> store (handleReady now a s) a = Some c'' \<longrightarrow>
            partnerId c'' = None \<and> waitingQueue (handleReady now a s) = waitingQueue s)"
proof -
  have ns: "partnerId x \<noteq> Some k \<and> partnerId x \<noteq> Some (client_id x)"
    if "consistent t" "store t k = Some x" for t k x
  proof -
    from that(1) have o: "objs_ok t" and sy: "sym_ok t" by (simp_all add: consistent_def)
    show ?thesis using sym_okD [OF sy that(2)] objs_okD [OF o that(2)] by auto
  qed
  have cs: "consistent s" using assms by (rule reachable_consistent)
  have 1: "store s a = Some c \<longrightarrow> partnerId c \<noteq> Some a \<and> partnerId c \<noteq> Some (client_id c)"
    using ns [OF cs] by blast
  have 2: "enabled s e \<and> store (step e s) a = Some c' \<longrightarrow> partnerId c' \<noteq> Some a"
    using ns [OF consistent_step [OF cs]] by blast
  have 3: "partnerId c'' = None \<and> waitingQueue (handleReady now a s) = waitingQueue s"
    if q: "a \<in> set (waitingQueue s)" and st: "store (handleReady now a s) a = Some c''"
  proof -
    from cs have o: "objs_ok s" and qo: "queue_ok s" by (simp_all add: consistent_def)
    from queue_okD [OF qo q] obtain c0 where c0: "store s a = Some c0" "partnerId c0 = None" by auto
    have ia: "client_id c0 = a" using objs_okD [OF o c0(1)] by simp
    have "handleReady now a s = send a (Status ''Waiting for the next available partner...'') s"
      using c0 ia q by (simp add: handleReady_def truthy_str_def)
    then show ?thesis using st c0 by simp
  qed
  show ?thesis using 1 2 3 by blast
qed

theorem no_self_pairing_witness:
  "reachable (exec scenario_waiting init) \<and> waitingQueue (exec scenario_waiting init) = [''A''] \<and>
   enabled (exec scenario_waiting init) (Message 3000 ''A'' msg_ready) \<and>
   partnerId (the (store (step (Message 3000 ''A'' msg_ready) (exec scenario_waiting init)) ''A''))
     \<noteq> Some ''A''"
proof -
  let ?s = "exec scenario_waiting init"
  let ?e = "Message 3000 ''A'' msg_ready"
  have en: "all_enabled scenario_waiting init"
    by code_simp
  have r: "reachable ?s"
    using exec_reachable [OF reachable_init en] .
  have q: "waitingQueue ?s = [''A'']" "enabled ?s ?e"
    "store (step ?e ?s) ''A'' = Some (the (store (step ?e ?s) ''A''))"
    by code_simp+
  show ?thesis
    using no_self_pairing [OF r, of "''A''" _ ?e "the (store (step ?e ?s) ''A'')"] r q by blast
qed

section \<open>The waiting queue\<close>

text \<open>
  C8. In every reachable state the queue has no duplicates, every queued id is a registered
  client without partner, and a \<open>ready\<close> from a client that is already queued changes
  nothing but the log of sent messages, which gets one status message for that client.
\<close>

theorem waiting_queue_invariant:
  assumes "reachable s"
  shows "distinct (waitingQueue s) \<and>
         (\<forall>q \<in> set (waitingQueue s).
            q \<in> set (clients s) \<and> (\<exists>c. store s q = Some c \<and> partnerId c = None)) \<and>
         (a \<in> set (waitingQueue s) \<and> is_open s a \<longrightarrow>
            handleReady now a s =
              s\<lparr> sent := sent s @ [(a, Status ''Waiting for the next available partner...'')] \<rparr>)"
proof -
  have cs: "consistent s" using assms by (rule reachable_consistent)
  then have o: "objs_ok s" and qo: "queue_ok s" by (simp_all add: consistent_def)
  have 3: "handleReady now a s =
              s\<lparr> sent := sent s @ [(a, Status ''Waiting for the next available partner...'')] \<rparr>"
    if q: "a \<in> set (waitingQueue s)" and op: "is_open s a"
  proof -
    from queue_okD [OF qo q] obtain c0 where c0: "store s a = Some c0" "partnerId c0 = None" by auto
    have ia: "client_id c0 = a" using objs_okD [OF o c0(1)] by simp
    have "handleReady now a s = send a (Status ''Waiting for the next available partner...'') s"
      using c0 ia q by (simp add: handleReady_def truthy_str_def)
    then show ?thesis using op c0 by (simp add: send_def is_open_def)
  qed
  show ?thesis using qo 3 unfolding queue_ok_def by blast
qed

theorem waiting_queue_invariant_witness:
  "reachable (exec scenario_waiting init) \<and> ''A'' \<in> set (waitingQueue (exec scenario_waiting init)) \<and>
   is_open (exec scenario_waiting init) ''A'' \<and>
   waitingQueue (handleReady 3000 ''A'' (exec scenario_waiting init)) = [''A'']"
proof -
  let ?s = "exec scenario_waiting init"
  have en: "all_enabled scenario_waiting init"
    by code_simp
  have r: "reachable ?s"
    using exec_reachable [OF reachable_init en] .
  have q: "waitingQueue ?s = [''A'']" "is_open ?s ''A''"
    by code_simp+
  show ?thesis
    using waiting_queue_invariant [OF r, of "''A''" 3000] r q by simp
qed

section \<open>Leaving\<close>

lemma state_upd_triv: "s\<lparr> store := store s \<rparr> = s" "s\<lparr> waitingQueue := waitingQueue s \<rparr> = s"
  by simp_all

lemma handleLeave_noop:
  assumes "store s a = Some c" "partnerId c = None" "pairedAt c = None" "\<not> wantsChat c"
    "client_id c \<notin> set (waitingQueue s)"
  shows "handleLeave now a s = s"
proof -
  have 1: "removeFromQueue (client_id c) s = s"
    using assms(5) by (simp add: removeFromQueue_def remove1_idem)
  have 2: "leave_partner now c s = s"
    using assms(2) by (simp add: leave_partner_def)
  have 3: "c\<lparr> partnerId := None, pairedAt := None, wantsChat := False \<rparr> = c"
    using assms(2-4) by simp
  have 4: "(store s)(a := Some c) = store s"
    using assms(1) by (simp add: fun_upd_idem)
  show ?thesis
    using assms(1) by (simp add: handleLeave_def Let_def 1 2 modify_def 3 4)
qed

lemma leave_partner_sent:
  "sent (leave_partner now c s) = sent s @ leave_notices s c"
  unfolding leave_partner_def leave_notices_def partner_ref_def clients_get_def Let_def
  by (auto simp: sent_send is_open_def split: option.splits)

lemma leave_notices_removeFromQueue [simp]: "leave_notices (removeFromQueue k s) c = leave_notices s c"
  by (simp add: leave_notices_def is_open_def split: option.splits)

lemma handleLeave_sent:
  "store s a = Some c \<Longrightarrow> sent (handleLeave now a s) = sent s @ leave_notices s c"
  by (simp add: handleLeave_def Let_def leave_partner_sent)

lemma leave_partner_quiet:
  "partner_ref s c = None \<Longrightarrow> leave_partner now c s = s"
  unfolding leave_partner_def partner_ref_def clients_get_def
  by (auto split: option.splits if_splits)

lemma handleLeave_quiet:
  assumes "store s a = Some c" "partner_ref s c = None"
  shows "activeConversations (handleLeave now a s) = activeConversations s"
    "conversationHistory (handleLeave now a s) = conversationHistory s"
    "sent (handleLeave now a s) = sent s"
proof -
  have "leave_partner now c (removeFromQueue (client_id c) s) = removeFromQueue (client_id c) s"
    using assms(2) by (intro leave_partner_quiet) simp
  then show "activeConversations (handleLeave now a s) = activeConversations s"
    "conversationHistory (handleLeave now a s) = conversationHistory s"
    "sent (handleLeave now a s) = sent s"
    using assms(1) by (simp_all add: handleLeave_def Let_def)
qed

lemma leave_partner_history:
  "length (conversationHistory (leave_partner now c s)) \<le> length (conversationHistory s) + 1"
  by (auto simp: leave_partner_def Let_def record_conversation_def split: option.splits)

lemma handleLeave_history:
  "length (conversationHistory (handleLeave now a s)) \<le> length (conversationHistory s) + 1"
  using leave_partner_history [of now _ "removeFromQueue _ s"]
  by (auto simp: handleLeave_def Let_def split: option.splits)

lemma handleLeave_active_lower:
  "activeConversations s - 1 \<le> activeConversations (handleLeave now a s)"
  using handleLeave_active [of now a s] by auto

lemma cleanupClient_registered:
  "k \<in> set (clients s) \<Longrightarrow> store s k = Some c \<Longrightarrow>
   cleanupClient now k s = clients_delete k (handleLeave now k s)"
  by (simp add: cleanupClient_def clients_get_def)

lemma handleLeave_cong:
  assumes "store s' = store s" "waitingQueue s' = waitingQueue s"
    "activeConversations s' = activeConversations s" "conversationHistory s' = conversationHistory s"
    "sent s' = sent s" "set (clients s') \<subseteq> set (clients s)"
    "store s a = Some c" "partner_ref s c = None"
  shows "activeConversations (handleLeave now a s') = activeConversations s'"
    "conversationHistory (handleLeave now a s') = conversationHistory s'"
    "sent (handleLeave now a s') = sent s'"
proof -
  have "partner_ref s' c = None"
    using assms(1,6,8) by (auto simp: partner_ref_def split: option.splits if_splits)
  moreover have "store s' a = Some c" using assms(1,7) by simp
  ultimately show "activeConversations (handleLeave now a s') = activeConversations s'"
    "conversationHistory (handleLeave now a s') = conversationHistory s'"
    "sent (handleLeave now a s') = sent s'"
    by (simp_all add: handleLeave_quiet)
qed

lemma leave_after_partner:
  assumes cs: "consistent s" and c: "store s a = Some c" and p: "partnerId c = Some b"
  shows "activeConversations (handleLeave n2 a (handleLeave n1 b s)) =
           activeConversations (handleLeave n1 b s)"
    and "conversationHistory (handleLeave n2 a (handleLeave n1 b s)) =
           conversationHistory (handleLeave n1 b s)"
    and "sent (handleLeave n2 a (handleLeave n1 b s)) = sent (handleLeave n1 b s)"
    and "activeConversations (handleLeave n2 a (cleanupClient n1 b s)) =
           activeConversations (cleanupClient n1 b s)"
    and "conversationHistory (handleLeave n2 a (cleanupClient n1 b s)) =
           conversationHistory (cleanupClient n1 b s)"
    and "sent (handleLeave n2 a (cleanupClient n1 b s)) = sent (cleanupClient n1 b s)"
proof -
  let ?s = "handleLeave n1 b s"
  let ?t = "cleanupClient n1 b s"
  from cs have sy: "sym_ok s" by (simp add: consistent_def)
  from sym_okD [OF sy c p] obtain d where d: "b \<noteq> a" "b \<in> set (clients s)" "store s b = Some d"
    "partnerId d = Some a" by auto
  have "partner_ref s d = Some a"
    using partner_ref_consistent [OF cs d(3)] d(4) by simp
  then have sa: "store ?s a = Some (unpair c)"
    using d(1) c by (simp add: handleLeave_store [OF d(3)])
  have pr: "partner_ref ?s (unpair c) = None"
    by (simp add: partner_ref_def unpair_def)
  show "activeConversations (handleLeave n2 a ?s) = activeConversations ?s"
    and "conversationHistory (handleLeave n2 a ?s) = conversationHistory ?s"
    and "sent (handleLeave n2 a ?s) = sent ?s"
    using handleLeave_quiet [OF sa pr, of n2] by simp_all
  have t: "store ?t = store ?s" "waitingQueue ?t = waitingQueue ?s"
    "activeConversations ?t = activeConversations ?s" "conversationHistory ?t = conversationHistory ?s"
    "sent ?t = sent ?s"
    by (simp_all add: cleanupClient_registered [OF d(2,3)])
  have tc: "set (clients ?t) \<subseteq> set (clients ?s)"
    by (auto simp: cleanupClient_registered [OF d(2,3)])
  show "activeConversations (handleLeave n2 a ?t) = activeConversations ?t"
    and "conversationHistory (handleLeave n2 a ?t) = conversationHistory ?t"
    and "sent (handleLeave n2 a ?t) = sent ?t"
    using handleLeave_cong [OF t tc sa pr, of n2] by simp_all
qed

text \<open>
  C5. In a reachable state, a second \<open>leave\<close> right after a first one changes nothing at
  all; a \<open>leave\<close> of a client whose partner has just left, has just been cleaned up, or
  whose socket has just closed, changes neither the counter of active conversations, nor
  the list of conversation records, nor the log of sent messages; \<open>handleLeave\<close> never
  sends an error message; and the two leaves together lower the counter by at most one
  and append at most one record.
\<close>

theorem leave_idempotent:
  assumes "reachable s"
  shows "handleLeave n2 a (handleLeave n1 a s) = handleLeave n1 a s \<and>
    ((x, Error m) \<in> set (sent (handleLeave n1 a s)) \<longrightarrow> (x, Error m) \<in> set (sent s)) \<and>
    (store s a = Some c \<and> partnerId c = Some b \<longrightarrow>
       activeConversations (handleLeave n2 a (handleLeave n1 b s)) =
         activeConversations (handleLeave n1 b s) \<and>
       conversationHistory (handleLeave n2 a (handleLeave n1 b s)) =
         conversationHistory (handleLeave n1 b s) \<and>
       sent (handleLeave n2 a (handleLeave n1 b s)) = sent (handleLeave n1 b s) \<and>
       activeConversations (handleLeave n2 a (cleanupClient n1 b s)) =
         activeConversations (cleanupClient n1 b s) \<and>
       conversationHistory (handleLeave n2 a (cleanupClient n1 b s)) =
         conversationHistory (cleanupClient n1 b s) \<and>
       sent (handleLeave n2 a (cleanupClient n1 b s)) = sent (cleanupClient n1 b s) \<and>
       activeConversations (handleLeave n2 a (onClose n1 b s)) =
         activeConversations (onClose n1 b s) \<and>
       conversationHistory (handleLeave n2 a (onClose n1 b s)) =
         conversationHistory (onClose n1 b s) \<and>
       sent (handleLeave n2 a (onClose n1 b s)) = sent (onClose n1 b s) \<and>
       activeConversations s - 1 \<le> activeConversations (handleLeave n2 a (handleLeave n1 b s)) \<and>
       length (conversationHistory (handleLeave n2 a (handleLeave n1 b s)))
         \<le> length (conversationHistory s) + 1)"
proof -
  have cs: "consistent s" using assms by (rule reachable_consistent)
  then have o: "objs_ok s" and qo: "queue_ok s" and sy: "sym_ok s" by (simp_all add: consistent_def)
  have 1: "handleLeave n2 a (handleLeave n1 a s) = handleLeave n1 a s"
  proof (cases "store s a")
    case None
    then show ?thesis by (simp add: handleLeave_fields)
  next
    case (Some c0)
    let ?s = "handleLeave n1 a s"
    have "store ?s a = Some (clear c0)" by (simp add: handleLeave_store [OF Some])
    moreover have "client_id (clear c0) \<notin> set (waitingQueue ?s)"
      using qo handleLeave_fields(2) [OF Some, of n1] by (simp add: queue_ok_def clear_def)
    ultimately show ?thesis
      by (intro handleLeave_noop [where c = "clear c0"]) (simp_all add: clear_def)
  qed
  have 2: "(x, Error m) \<in> set (sent (handleLeave n1 a s)) \<longrightarrow> (x, Error m) \<in> set (sent s)"
  proof (cases "store s a")
    case None
    then show ?thesis by (simp add: handleLeave_fields)
  next
    case (Some c0)
    show ?thesis
      by (auto simp: handleLeave_sent [OF Some] leave_notices_def split: option.splits if_splits)
  qed
  have 3: "activeConversations (handleLeave n2 a (handleLeave n1 b s)) =
         activeConversations (handleLeave n1 b s) \<and>
       conversationHistory (handleLeave n2 a (handleLeave n1 b s)) =
         conversationHistory (handleLeave n1 b s) \<and>
       sent (handleLeave n2 a (handleLeave n1 b s)) = sent (handleLeave n1 b s) \<and>
       activeConversations (handleLeave n2 a (cleanupClient n1 b s)) =
         activeConversations (cleanupClient n1 b s) \<and>
       conversationHistory (handleLeave n2 a (cleanupClient n1 b s)) =
         conversationHistory (cleanupClient n1 b s) \<and>
       sent (handleLeave n2 a (cleanupClient n1 b s)) = sent (cleanupClient n1 b s) \<and>
       activeConversations (handleLeave n2 a (onClose n1 b s)) =
         activeConversations (onClose n1 b s) \<and>
       conversationHistory (handleLeave n2 a (onClose n1 b s)) =
         conversationHistory (onClose n1 b s) \<and>
       sent (handleLeave n2 a (onClose n1 b s)) = sent (onClose n1 b s) \<and>
       activeConversations s - 1 \<le> activeConversations (handleLeave n2 a (handleLeave n1 b s)) \<and>
       length (conversationHistory (handleLeave n2 a (handleLeave n1 b s)))
         \<le> length (conversationHistory s) + 1"
    if c: "store s a = Some c" and p: "partnerId c = Some b"
  proof -
    let ?u = "set_readyState b CLOSED s"
    have ba: "b \<noteq> a" using sym_okD [OF sy c p] by simp
    have cu: "consistent ?u" by (rule consistent_set_readyState [OF cs]) simp
    have ua: "store ?u a = Some c" using c ba by (simp add: set_readyState_def)
    note h = leave_after_partner [OF cs c p, of n2 n1]
    note k = leave_after_partner(4-6) [OF cu ua p, of n2 n1]
    have "activeConversations s - 1 \<le> activeConversations (handleLeave n1 b s)"
      by (rule handleLeave_active_lower)
    moreover have "length (conversationHistory (handleLeave n1 b s)) \<le> length (conversationHistory s) + 1"
      by (rule handleLeave_history)
    ultimately show ?thesis using h k by (simp add: onClose_def)
  qed
  show ?thesis using 1 2 3 by blast
qed

theorem leave_idempotent_witness:
  "reachable (exec scenario_paired init) \<and>
   store (exec scenario_paired init) ''A'' = Some (the (store (exec scenario_paired init) ''A'')) \<and>
   partnerId (the (store (exec scenario_paired init) ''A'')) = Some ''B'' \<and>
   activeConversations (handleLeave 6000 ''A'' (handleLeave 5000 ''B'' (exec scenario_paired init))) = 0 \<and>
   length (conversationHistory
     (handleLeave 6000 ''A'' (handleLeave 5000 ''B'' (exec scenario_paired init)))) = 1 \<and>
   activeConversations (handleLeave 6000 ''A'' (onClose 5000 ''B'' (exec scenario_paired init))) = 0 \<and>
   handleLeave 6000 ''A'' (handleLeave 5000 ''A'' (exec scenario_paired init)) =
     handleLeave 5000 ''A'' (exec scenario_paired init)"
proof -
  let ?s = "exec scenario_paired init"
  have en: "all_enabled scenario_paired init"
    by code_simp
  have r: "reachable ?s"
    using exec_reachable [OF reachable_init en] .
  have a: "store ?s ''A'' = Some (the (store ?s ''A''))" "partnerId (the (store ?s ''A'')) = Some ''B''"
    "activeConversations (handleLeave 5000 ''B'' ?s) = 0"
    "length (conversationHistory (handleLeave 5000 ''B'' ?s)) = 1"
    "activeConversations (onClose 5000 ''B'' ?s) = 0"
    by code_simp+
  show ?thesis
    using leave_idempotent [OF r, of 6000 "''A''" 5000 _ _ "the (store ?s ''A'')" "''B''"] r a by simp
qed

section \<open>Matching on ready\<close>

lemma valid_entry_cong:
  "store s' = store s \<Longrightarrow> clients s' = clients s \<Longrightarrow> valid_entry s' p = valid_entry s p"
  by (simp add: valid_entry_def clients_get_def)

lemma valid_entry_queue [simp]: "valid_entry (s\<lparr> waitingQueue := q \<rparr>) p = valid_entry s p"
  by (rule valid_entry_cong) simp_all

lemma ready_loop_skip:
  "waitingQueue s = pre @ rest \<Longrightarrow> \<forall>p \<in> set pre. p \<noteq> [] \<and> \<not> valid_entry s p \<Longrightarrow>
   ready_loop now c a s = ready_loop now c a (s\<lparr> waitingQueue := rest \<rparr>)"
proof (induction pre arbitrary: s)
  case Nil
  then have "s\<lparr> waitingQueue := rest \<rparr> = s" by auto
  then show ?case by simp
next
  case (Cons p pre)
  let ?s = "s\<lparr> waitingQueue := pre @ rest \<rparr>"
  have "ready_loop now c a s = ready_loop now c a ?s"
    using Cons.prems
    by (subst ready_loop.simps) (auto simp: valid_entry_def clients_get_def split: option.splits)
  also have "\<dots> = ready_loop now c a (?s\<lparr> waitingQueue := rest \<rparr>)"
    using Cons.prems by (intro Cons.IH) auto
  finally show ?case by simp
qed

lemma ready_loop_match:
  "waitingQueue s = b # post \<Longrightarrow> b \<noteq> [] \<Longrightarrow> valid_entry s b \<Longrightarrow>
   ready_loop now c a s = connectPair now a b (s\<lparr> waitingQueue := post \<rparr>)"
  by (subst ready_loop.simps) (auto simp: valid_entry_def clients_get_def split: option.splits if_splits)

lemma ready_loop_empty:
  "waitingQueue s = [] \<Longrightarrow> ready_loop now c a s = ready_wait c a s"
  by (subst ready_loop.simps) simp

lemma is_open_cong: "store s' = store s \<Longrightarrow> is_open s' x = is_open s x"
  by (simp add: is_open_def)

lemma connectPair_sent:
  assumes "store s a = Some ca" "store s b = Some cb"
  shows "sent (connectPair now a b s) =
     sent s @ (if is_open s a then [(a, Match (client_id cb) Offerer)] else [])
            @ (if is_open s b then [(b, Match (client_id ca) Answerer)] else [])
            @ (if is_open s a then [(a, Status ''Connected! Start your video.'')] else [])
            @ (if is_open s b then [(b, Status ''Connected! Start your video.'')] else [])"
  using assms
  by (auto simp: connectPair_def Let_def sent_send is_open_def)

lemma queue_no_empty:
  assumes "consistent s" "p \<in> set (waitingQueue s)"
  shows "p \<noteq> []"
proof -
  from assms(1) have o: "objs_ok s" and q: "queue_ok s" by (simp_all add: consistent_def)
  from queue_okD [OF q assms(2)] obtain c where "store s p = Some c" by auto
  from objs_okD [OF o this] show ?thesis by simp
qed

lemma handleReady_loop:
  assumes "store s a = Some c" "partnerId c = None" "client_id c \<notin> set (waitingQueue s)"
  shows "handleReady now a s = ready_loop now c a (modify a (\<lambda>x. x\<lparr> wantsChat := True \<rparr>) s)"
  using assms by (simp add: handleReady_def truthy_str_def)

lemma valid_entry_modify_wants [simp]:
  "valid_entry (modify a (\<lambda>x. x\<lparr> wantsChat := True \<rparr>) s) p = valid_entry s p"
  by (auto simp: valid_entry_def clients_get_def split: option.splits)

lemma is_open_modify_wants [simp]:
  "is_open (modify a (\<lambda>x. x\<lparr> wantsChat := True \<rparr>) s) p = is_open s p"
  by (auto simp: is_open_def split: option.splits)

lemma valid_entry_open: "valid_entry s p \<Longrightarrow> is_open s p \<and> p \<in> set (clients s)"
  by (auto simp: valid_entry_def clients_get_def is_open_def split: option.splits if_splits)

lemma handleReady_match:
  assumes cs: "consistent s" and op: "is_open s a" and c: "store s a = Some c"
    and pn: "partnerId c = None" and nq: "a \<notin> set (waitingQueue s)"
    and q: "waitingQueue s = pre @ b # post" and inv: "\<forall>p \<in> set pre. \<not> valid_entry s p"
    and vb: "valid_entry s b" and cb: "store s b = Some cb"
  shows "handleReady now a s =
           connectPair now a b ((modify a (\<lambda>x. x\<lparr> wantsChat := True \<rparr>) s)\<lparr> waitingQueue := post \<rparr>)"
    and "waitingQueue (handleReady now a s) = post"
    and "clients (handleReady now a s) = clients s"
    and "activeConversations (handleReady now a s) = activeConversations s + 1"
    and "store (handleReady now a s) =
           (store s)(a := Some (c\<lparr> partnerId := Some b, wantsChat := False, pairedAt := Some now \<rparr>),
                     b := Some (cb\<lparr> partnerId := Some a, wantsChat := False, pairedAt := Some now \<rparr>))"
    and "sent (handleReady now a s) =
           sent s @ [(a, Match b Offerer), (b, Match a Answerer),
                     (a, Status ''Connected! Start your video.''),
                     (b, Status ''Connected! Start your video.'')]"
proof -
  from cs have o: "objs_ok s" by (simp add: consistent_def)
  have ia: "client_id c = a" and ib: "client_id cb = b"
    using objs_okD [OF o c] objs_okD [OF o cb] by simp_all
  have ab: "a \<noteq> b" using nq q by auto
  let ?m = "modify a (\<lambda>x. x\<lparr> wantsChat := True \<rparr>) s"
  let ?t = "?m\<lparr> waitingQueue := post \<rparr>"
  have ne: "\<forall>p \<in> set pre. p \<noteq> [] \<and> \<not> valid_entry ?m p"
    using inv queue_no_empty [OF cs] q by auto
  have bne: "b \<noteq> []" using queue_no_empty [OF cs, of b] q by simp
  have "handleReady now a s = ready_loop now c a ?m"
    using c pn nq ia by (simp add: handleReady_loop)
  also have "\<dots> = ready_loop now c a (?m\<lparr> waitingQueue := b # post \<rparr>)"
    using q ne by (intro ready_loop_skip [where pre = pre]) simp_all
  also have "\<dots> = connectPair now a b ?t"
    using bne vb by (subst ready_loop_match [where b = b and post = post]) simp_all
  finally show 1: "handleReady now a s = connectPair now a b ?t" .
  have ta: "store ?t a = Some (c\<lparr> wantsChat := True \<rparr>)" and tb: "store ?t b = Some cb"
    using c cb ab by auto
  show "waitingQueue (handleReady now a s) = post" by (simp add: 1)
  show "clients (handleReady now a s) = clients s" by (simp add: 1)
  show "activeConversations (handleReady now a s) = activeConversations s + 1"
    using c cb ab by (auto simp: 1 connectPair_active)
  show "store (handleReady now a s) =
           (store s)(a := Some (c\<lparr> partnerId := Some b, wantsChat := False, pairedAt := Some now \<rparr>),
                     b := Some (cb\<lparr> partnerId := Some a, wantsChat := False, pairedAt := Some now \<rparr>))"
    unfolding 1 connectPair_store [OF ta tb ab]
    using ia ib ab by (auto simp: pair_with_def fun_eq_iff)
  have "is_open ?t a" "is_open ?t b"
    using op valid_entry_open [OF vb] is_open_cong [of ?t ?m] by simp_all
  then show "sent (handleReady now a s) =
           sent s @ [(a, Match b Offerer), (b, Match a Answerer),
                     (a, Status ''Connected! Start your video.''),
                     (b, Status ''Connected! Start your video.'')]"
    unfolding 1 connectPair_sent [OF ta tb] using ia ib by simp
qed

lemma handleReady_wait:
  assumes cs: "consistent s" and op: "is_open s a" and c: "store s a = Some c"
    and pn: "partnerId c = None" and nq: "a \<notin> set (waitingQueue s)"
    and inv: "\<forall>p \<in> set (waitingQueue s). \<not> valid_entry s p"
  shows "waitingQueue (handleReady now a s) = [a]"
    and "clients (handleReady now a s) = clients s"
    and "activeConversations (handleReady now a s) = activeConversations s"
    and "store (handleReady now a s) = (store s)(a := Some (c\<lparr> wantsChat := True \<rparr>))"
    and "sent (handleReady now a s) = sent s @ [(a, Status ''Waiting for someone to join...'')]"
proof -
  from cs have o: "objs_ok s" by (simp add: consistent_def)
  have ia: "client_id c = a" using objs_okD [OF o c] by simp
  let ?m = "modify a (\<lambda>x. x\<lparr> wantsChat := True \<rparr>) s"
  let ?t = "?m\<lparr> waitingQueue := [] \<rparr>"
  have ne: "\<forall>p \<in> set (waitingQueue s). p \<noteq> [] \<and> \<not> valid_entry ?m p"
    using inv queue_no_empty [OF cs] by auto
  have "handleReady now a s = ready_loop now c a ?m"
    using c pn nq ia by (simp add: handleReady_loop)
  also have "\<dots> = ready_loop now c a ?t"
    using ne by (intro ready_loop_skip [where pre = "waitingQueue s"]) simp_all
  also have "\<dots> = ready_wait c a ?t"
    by (rule ready_loop_empty) simp
  finally have 1: "handleReady now a s = ready_wait c a ?t" .
  have "is_open (?t\<lparr> waitingQueue := [a] \<rparr>) a"
    using op is_open_cong [of "?t\<lparr> waitingQueue := [a] \<rparr>" ?m] by simp
  then show "waitingQueue (handleReady now a s) = [a]"
    and "clients (handleReady now a s) = clients s"
    and "activeConversations (handleReady now a s) = activeConversations s"
    and "store (handleReady now a s) = (store s)(a := Some (c\<lparr> wantsChat := True \<rparr>))"
    and "sent (handleReady now a s) = sent s @ [(a, Status ''Waiting for someone to join...'')]"
    using c ia by (simp_all add: 1 ready_wait_def sent_send)
qed

section \<open>At most one client waits\<close>

lemma handleLeave_queue_length:
  "length (waitingQueue (handleLeave now a s)) \<le> length (waitingQueue s)"
proof (cases "store s a")
  case None
  then show ?thesis by (simp add: handleLeave_fields)
next
  case (Some c)
  show ?thesis
    unfolding handleLeave_fields(2) [OF Some]
    by (simp add: length_remove1)
qed

lemma short_handleLeave:
  "length (waitingQueue s) \<le> Suc 0 \<Longrightarrow> length (waitingQueue (handleLeave now a s)) \<le> Suc 0"
  using handleLeave_queue_length [of now a s] by simp

lemma short_cleanupClient:
  "length (waitingQueue s) \<le> Suc 0 \<Longrightarrow> length (waitingQueue (cleanupClient now a s)) \<le> Suc 0"
  by (auto simp: cleanupClient_def short_handleLeave split: option.splits)

lemma short_ready_loop:
  "length (waitingQueue s) \<le> Suc 0 \<Longrightarrow> length (waitingQueue (ready_loop now c a s)) \<le> Suc 0"
proof (induction now c a s rule: ready_loop.induct)
  case (1 now c a s)
  show ?case
  proof (cases "waitingQueue s")
    case Nil
    then show ?thesis by (simp add: ready_loop.simps [of now c a s] ready_wait_def)
  next
    case (Cons p q)
    with "1.prems" have q: "q = []" by simp
    let ?s = "s\<lparr> waitingQueue := [] \<rparr>"
    have e: "ready_loop now c a ?s = ready_wait c a ?s"
      by (rule ready_loop_empty) simp
    show ?thesis
      using Cons q e
      by (auto simp: ready_loop.simps [of now c a s] ready_wait_def split: option.splits)
  qed
qed

lemma short_handleReady:
  "length (waitingQueue s) \<le> Suc 0 \<Longrightarrow> length (waitingQueue (handleReady now a s)) \<le> Suc 0"
  by (auto simp: handleReady_def short_ready_loop split: option.splits)

lemma short_handleSignal:
  "length (waitingQueue s) \<le> Suc 0 \<Longrightarrow> length (waitingQueue (handleSignal now a p s)) \<le> Suc 0"
  by (auto simp: handleSignal_def short_handleLeave split: option.splits)

lemma short_handleMessage:
  "length (waitingQueue s) \<le> Suc 0 \<Longrightarrow> length (waitingQueue (handleMessage now a p s)) \<le> Suc 0"
  by (auto simp: handleMessage_def short_handleLeave short_handleSignal short_handleReady
      split: option.splits json.splits)

lemma short_heartbeat_visit:
  "length (waitingQueue s) \<le> Suc 0 \<Longrightarrow> length (waitingQueue (heartbeat_visit now a s)) \<le> Suc 0"
  by (auto simp: heartbeat_visit_def Let_def terminate_def short_cleanupClient split: option.splits)

lemma short_heartbeat:
  "length (waitingQueue s) \<le> Suc 0 \<Longrightarrow> length (waitingQueue (heartbeat now s)) \<le> Suc 0"
proof -
  have "length (waitingQueue s) \<le> Suc 0 \<Longrightarrow> length (waitingQueue (fold (heartbeat_visit now) xs s)) \<le> Suc 0" for xs
    by (induction xs arbitrary: s) (auto simp: short_heartbeat_visit)
  then show "length (waitingQueue s) \<le> Suc 0 \<Longrightarrow> length (waitingQueue (heartbeat now s)) \<le> Suc 0"
    by (simp add: heartbeat_def)
qed

lemma short_step:
  "length (waitingQueue s) \<le> Suc 0 \<Longrightarrow> length (waitingQueue (step e s)) \<le> Suc 0"
  by (cases e)
     (auto simp: onConnection_def Let_def short_handleMessage onPong_def onClose_def onError_def
        set_readyState_def short_cleanupClient short_heartbeat)

lemma reachable_short_queue: "reachable s \<Longrightarrow> length (waitingQueue s) \<le> Suc 0"
  by (induction rule: reachable.induct) (auto simp: init_def short_step)

section \<open>Roles of a match\<close>

lemma handleMessage_ready [simp]: "handleMessage now a msg_ready s = handleReady now a s"
  by (simp add: handleMessage_def msg_ready_def)

text \<open>
  C2, as the claim states it, fails: after A asked for a partner and waits, the \<open>ready\<close> of
  B makes B the offerer and A the answerer.
\<close>

theorem match_roles_counterexample:
  "all_enabled (scenario_a_waits @ [Message 4000 ''B'' msg_ready]) init \<and>
   waitingQueue (exec scenario_a_waits init) = [''A''] \<and>
   sent (step (Message 4000 ''B'' msg_ready) (exec scenario_a_waits init)) =
     sent (exec scenario_a_waits init) @
       [(''B'', Match ''A'' Offerer), (''A'', Match ''B'' Answerer),
        (''B'', Status ''Connected! Start your video.''),
        (''A'', Status ''Connected! Start your video.'')] \<and>
   (''A'', Match ''B'' Offerer) \<notin> set (sent (step (Message 4000 ''B'' msg_ready) (exec scenario_a_waits init))) \<and>
   (''B'', Match ''A'' Answerer) \<notin> set (sent (step (Message 4000 ''B'' msg_ready) (exec scenario_a_waits init)))"
  by code_simp

text \<open>
  C2, amended. In a reachable state where A is in the queue with an open socket and a
  different client B, unpaired and with an open socket, sends \<open>ready\<close>, the server sends
  to B the match with partner A and role offerer, and to A the match with partner B and
  role answerer, each followed by a status message.
\<close>

theorem match_roles:
  assumes "reachable s" "a \<in> set (waitingQueue s)" "is_open s a" "b \<noteq> a" "is_open s b"
    "store s b = Some cb" "partnerId cb = None"
  shows "sent (step (Message now b msg_ready) s) =
     sent s @ [(b, Match a Offerer), (a, Match b Answerer),
               (b, Status ''Connected! Start your video.''),
               (a, Status ''Connected! Start your video.'')]"
proof -
  have cs: "consistent s" using assms(1) by (rule reachable_consistent)
  then have qo: "queue_ok s" by (simp add: consistent_def)
  have "length (waitingQueue s) \<le> Suc 0" using assms(1) by (rule reachable_short_queue)
  with assms(2) have q: "waitingQueue s = [] @ a # []"
    by (cases "waitingQueue s") auto
  from queue_okD [OF qo assms(2)] obtain ca where ca: "a \<in> set (clients s)" "store s a = Some ca"
    by auto
  have va: "valid_entry s a"
    using ca assms(3) by (simp add: valid_entry_def clients_get_def is_open_def)
  have nq: "b \<notin> set (waitingQueue s)" using q assms(4) by simp
  show ?thesis
    using handleReady_match(6) [OF cs assms(5,6,7) nq q _ va ca(2), of now] by simp
qed

theorem match_roles_witness:
  "reachable (exec scenario_a_waits init) \<and>
   ''A'' \<in> set (waitingQueue (exec scenario_a_waits init)) \<and>
   is_open (exec scenario_a_waits init) ''A'' \<and> is_open (exec scenario_a_waits init) ''B'' \<and>
   sent (step (Message 4000 ''B'' msg_ready) (exec scenario_a_waits init)) =
     sent (exec scenario_a_waits init) @
       [(''B'', Match ''A'' Offerer), (''A'', Match ''B'' Answerer),
        (''B'', Status ''Connected! Start your video.''),
        (''A'', Status ''Connected! Start your video.'')]"
proof -
  let ?s = "exec scenario_a_waits init"
  have en: "all_enabled scenario_a_waits init"
    by code_simp
  have r: "reachable ?s"
    using exec_reachable [OF reachable_init en] .
  have h: "''A'' \<in> set (waitingQueue ?s)" "is_open ?s ''A''" "''B'' \<noteq> ''A''" "is_open ?s ''B''"
    "store ?s ''B'' = Some (the (store ?s ''B''))" "partnerId (the (store ?s ''B'')) = None"
    by code_simp+
  show ?thesis
    using match_roles [OF r h, of 4000] r h by simp
qed

section \<open>First come, first served\<close>

lemma handleReady_unpaired:
  assumes "store s a = Some c" "\<not> truthy_str (partnerId c)" "client_id c \<notin> set (waitingQueue s)"
  shows "handleReady now a s = ready_loop now c a (modify a (\<lambda>x. x\<lparr> wantsChat := True \<rparr>) s)"
  using assms by (simp add: handleReady_def)

lemma handleReady_first_valid:
  assumes op: "is_open s a" and c: "store s a = Some c" and ia: "client_id c = a"
    and np: "\<not> truthy_str (partnerId c)" and nq: "a \<notin> set (waitingQueue s)"
    and ne: "[] \<notin> set (waitingQueue s)"
    and q: "waitingQueue s = pre @ b # post" and inv: "\<forall>p \<in> set pre. \<not> valid_entry s p"
    and vb: "valid_entry s b" and cb: "store s b = Some cb" and ib: "client_id cb = b"
  shows "waitingQueue (handleReady now a s) = post"
    and "clients (handleReady now a s) = clients s"
    and "activeConversations (handleReady now a s) = activeConversations s + 1"
    and "store (handleReady now a s) =
           (store s)(a := Some (c\<lparr> partnerId := Some b, wantsChat := False, pairedAt := Some now \<rparr>),
                     b := Some (cb\<lparr> partnerId := Some a, wantsChat := False, pairedAt := Some now \<rparr>))"
    and "sent (handleReady now a s) =
           sent s @ [(a, Match b Offerer), (b, Match a Answerer),
                     (a, Status ''Connected! Start your video.''),
                     (b, Status ''Connected! Start your video.'')]"
proof -
  have ab: "a \<noteq> b" using nq q by auto
  let ?m = "modify a (\<lambda>x. x\<lparr> wantsChat := True \<rparr>) s"
  let ?t = "?m\<lparr> waitingQueue := post \<rparr>"
  have pre: "\<forall>p \<in> set pre. p \<noteq> [] \<and> \<not> valid_entry ?m p"
    using inv ne q by auto
  have bne: "b \<noteq> []" using ne q by auto
  have "handleReady now a s = ready_loop now c a ?m"
    using c np nq ia by (simp add: handleReady_unpaired)
  also have "\<dots> = ready_loop now c a (?m\<lparr> waitingQueue := b # post \<rparr>)"
    using q pre by (intro ready_loop_skip [where pre = pre]) simp_all
  also have "\<dots> = connectPair now a b ?t"
    using bne vb by (subst ready_loop_match [where b = b and post = post]) simp_all
  finally have 1: "handleReady now a s = connectPair now a b ?t" .
  have ta: "store ?t a = Some (c\<lparr> wantsChat := True \<rparr>)" and tb: "store ?t b = Some cb"
    using c cb ab by auto
  show "waitingQueue (handleReady now a s) = post" by (simp add: 1)
  show "clients (handleReady now a s) = clients s" by (simp add: 1)
  show "activeConversations (handleReady now a s) = activeConversations s + 1"
    using c cb ab by (auto simp: 1 connectPair_active)
  show "store (handleReady now a s) =
           (store s)(a := Some (c\<lparr> partnerId := Some b, wantsChat := False, pairedAt := Some now \<rparr>),
                     b := Some (cb\<lparr> partnerId := Some a, wantsChat := False, pairedAt := Some now \<rparr>))"
    unfolding 1 connectPair_store [OF ta tb ab]
    using ia ib ab by (auto simp: pair_with_def fun_eq_iff)
  have "is_open ?t a" "is_open ?t b"
    using op valid_entry_open [OF vb] is_open_cong [of ?t ?m] by simp_all
  then show "sent (handleReady now a s) =
           sent s @ [(a, Match b Offerer), (b, Match a Answerer),
                     (a, Status ''Connected! Start your video.''),
                     (b, Status ''Connected! Start your video.'')]"
    unfolding 1 connectPair_sent [OF ta tb] using ia ib by simp
qed

lemma handleReady_none_valid:
  assumes op: "is_open s a" and c: "store s a = Some c" and ia: "client_id c = a"
    and np: "\<not> truthy_str (partnerId c)" and nq: "a \<notin> set (waitingQueue s)"
    and ne: "[] \<notin> set (waitingQueue s)"
    and inv: "\<forall>p \<in> set (waitingQueue s). \<not> valid_entry s p"
  shows "waitingQueue (handleReady now a s) = [a]"
    and "clients (handleReady now a s) = clients s"
    and "activeConversations (handleReady now a s) = activeConversations s"
    and "store (handleReady now a s) = (store s)(a := Some (c\<lparr> wantsChat := True \<rparr>))"
    and "sent (handleReady now a s) = sent s @ [(a, Status ''Waiting for someone to join...'')]"
proof -
  let ?m = "modify a (\<lambda>x. x\<lparr> wantsChat := True \<rparr>) s"
  let ?t = "?m\<lparr> waitingQueue := [] \<rparr>"
  have pre: "\<forall>p \<in> set (waitingQueue s). p \<noteq> [] \<and> \<not> valid_entry ?m p"
    using inv ne by auto
  have "handleReady now a s = ready_loop now c a ?m"
    using c np nq ia by (simp add: handleReady_unpaired)
  also have "\<dots> = ready_loop now c a ?t"
    using pre by (intro ready_loop_skip [where pre = "waitingQueue s"]) simp_all
  also have "\<dots> = ready_wait c a ?t"
    by (rule ready_loop_empty) simp
  finally have 1: "handleReady now a s = ready_wait c a ?t" .
  have "is_open (?t\<lparr> waitingQueue := [a] \<rparr>) a"
    using op is_open_cong [of "?t\<lparr> waitingQueue := [a] \<rparr>" ?m] by simp
  then show "waitingQueue (handleReady now a s) = [a]"
    and "clients (handleReady now a s) = clients s"
    and "activeConversations (handleReady now a s) = activeConversations s"
    and "store (handleReady now a s) = (store s)(a := Some (c\<lparr> wantsChat := True \<rparr>))"
    and "sent (handleReady now a s) = sent s @ [(a, Status ''Waiting for someone to join...'')]"
    using c ia by (simp_all add: 1 ready_wait_def sent_send)
qed

text \<open>
  C3. Let \<open>a\<close> be an unpaired client with an open socket that is not in the queue and
  sends \<open>ready\<close>, in any state in which the \<open>id\<close> field of a client object is the id it is
  stored under and no queued id is the empty string. The queued ids need not be
  registered. If the queue is \<open>pre @ b # post\<close>, no id in \<open>pre\<close> is the key of a registered
  client with an open socket and \<open>b\<close> is one, then \<open>pre\<close> and \<open>b\<close> are taken off the queue,
  \<open>post\<close> stays, \<open>a\<close> and \<open>b\<close> become partners of each other with the same \<open>pairedAt\<close>, \<open>a\<close> is
  sent the match with role offerer and \<open>b\<close> the match with role answerer. If no queued id
  is the key of a registered client with an open socket, the queue becomes \<open>[a]\<close> and \<open>a\<close>
  is sent the status that it waits.
\<close>

theorem ready_fifo:
  assumes "is_open s a" "store s a = Some c" "client_id c = a" "\<not> truthy_str (partnerId c)"
    "a \<notin> set (waitingQueue s)" "[] \<notin> set (waitingQueue s)"
  shows "(waitingQueue s = pre @ b # post \<and> (\<forall>p \<in> set pre. \<not> valid_entry s p) \<and>
          valid_entry s b \<and> store s b = Some cb \<and> client_id cb = b \<longrightarrow>
            waitingQueue (handleReady now a s) = post \<and>
            clients (handleReady now a s) = clients s \<and>
            activeConversations (handleReady now a s) = activeConversations s + 1 \<and>
            store (handleReady now a s) =
              (store s)(a := Some (c\<lparr> partnerId := Some b, wantsChat := False, pairedAt := Some now \<rparr>),
                        b := Some (cb\<lparr> partnerId := Some a, wantsChat := False, pairedAt := Some now \<rparr>)) \<and>
            sent (handleReady now a s) =
              sent s @ [(a, Match b Offerer), (b, Match a Answerer),
                        (a, Status ''Connected! Start your video.''),
                        (b, Status ''Connected! Start your video.'')]) \<and>
         ((\<forall>p \<in> set (waitingQueue s). \<not> valid_entry s p) \<longrightarrow>
            waitingQueue (handleReady now a s) = [a] \<and>
            clients (handleReady now a s) = clients s \<and>
            activeConversations (handleReady now a s) = activeConversations s \<and>
            store (handleReady now a s) = (store s)(a := Some (c\<lparr> wantsChat := True \<rparr>)) \<and>
            sent (handleReady now a s) = sent s @ [(a, Status ''Waiting for someone to join...'')])"
  using handleReady_first_valid [OF assms, of pre b post cb now]
    handleReady_none_valid [OF assms, of now]
  by blast

theorem ready_fifo_witness:
  "is_open fifo_state ''C'' \<and> ''C'' \<notin> set (waitingQueue fifo_state) \<and>
   waitingQueue fifo_state = [''Z'', ''A''] @ ''B'' # [] \<and>
   ''Z'' \<notin> set (clients fifo_state) \<and> ''A'' \<in> set (clients fifo_state) \<and>
   \<not> valid_entry fifo_state ''Z'' \<and> \<not> valid_entry fifo_state ''A'' \<and>
   valid_entry fifo_state ''B'' \<and>
   waitingQueue (handleReady 5000 ''C'' fifo_state) = [] \<and>
   partnerId (the (store (handleReady 5000 ''C'' fifo_state) ''C'')) = Some ''B'' \<and>
   partnerId (the (store (handleReady 5000 ''C'' fifo_state) ''B'')) = Some ''C'' \<and>
   sent (handleReady 5000 ''C'' fifo_state) =
     sent fifo_state @ [(''C'', Match ''B'' Offerer), (''B'', Match ''C'' Answerer),
                        (''C'', Status ''Connected! Start your video.''),
                        (''B'', Status ''Connected! Start your video.'')] \<and>
   waitingQueue (handleReady 5000 ''C'' (fifo_state\<lparr> waitingQueue := [''Z'', ''A''] \<rparr>)) = [''C''] \<and>
   sent (handleReady 5000 ''C'' (fifo_state\<lparr> waitingQueue := [''Z'', ''A''] \<rparr>)) =
     sent fifo_state @ [(''C'', Status ''Waiting for someone to join...'')]"
proof -
  let ?w = "fifo_state\<lparr> waitingQueue := [''Z'', ''A''] \<rparr>"
  have h: "is_open fifo_state ''C''" "store fifo_state ''C'' = Some (the (store fifo_state ''C''))"
    "client_id (the (store fifo_state ''C'')) = ''C''"
    "\<not> truthy_str (partnerId (the (store fifo_state ''C'')))"
    "''C'' \<notin> set (waitingQueue fifo_state)" "[] \<notin> set (waitingQueue fifo_state)"
    by code_simp+
  have q: "waitingQueue fifo_state = [''Z'', ''A''] @ ''B'' # []"
    "''Z'' \<notin> set (clients fifo_state)" "''A'' \<in> set (clients fifo_state)"
    "\<not> valid_entry fifo_state ''Z''" "\<not> valid_entry fifo_state ''A''"
    "valid_entry fifo_state ''B''" "store fifo_state ''B'' = Some (the (store fifo_state ''B''))"
    "client_id (the (store fifo_state ''B'')) = ''B''"
    by code_simp+
  have k: "is_open ?w ''C''" "store ?w ''C'' = Some (the (store fifo_state ''C''))"
    "''C'' \<notin> set (waitingQueue ?w)" "[] \<notin> set (waitingQueue ?w)"
    "\<not> valid_entry ?w ''Z''" "\<not> valid_entry ?w ''A''" "waitingQueue ?w = [''Z'', ''A'']"
    "sent ?w = sent fifo_state"
    by code_simp+
  note t1 = ready_fifo [OF h, of "[''Z'', ''A'']" "''B''" "[]" "the (store fifo_state ''B'')" 5000]
  note t2 = ready_fifo [OF k(1,2) h(3,4) k(3,4), of "[]" "''B''" "[]" "the (store fifo_state ''B'')" 5000]
  have 1: "waitingQueue (handleReady 5000 ''C'' fifo_state) = []"
    "store (handleReady 5000 ''C'' fifo_state) =
       (store fifo_state)
         (''C'' := Some ((the (store fifo_state ''C''))\<lparr> partnerId := Some ''B'', wantsChat := False, pairedAt := Some 5000 \<rparr>),
          ''B'' := Some ((the (store fifo_state ''B''))\<lparr> partnerId := Some ''C'', wantsChat := False, pairedAt := Some 5000 \<rparr>))"
    "sent (handleReady 5000 ''C'' fifo_state) =
     sent fifo_state @ [(''C'', Match ''B'' Offerer), (''B'', Match ''C'' Answerer),
                        (''C'', Status ''Connected! Start your video.''),
                        (''B'', Status ''Connected! Start your video.'')]"
    using t1 q by simp_all
  have 2: "waitingQueue (handleReady 5000 ''C'' ?w) = [''C'']"
    "sent (handleReady 5000 ''C'' ?w) = sent fifo_state @ [(''C'', Status ''Waiting for someone to join...'')]"
    using t2 k by simp_all
  show ?thesis
    using h q 1 2 by simp
qed

section \<open>Relaying a signal\<close>
























section \<open>A partner reference that no longer resolves\<close>

text \<open>
  C9, as the claim states it, fails. A has the same record in two states. In the first
  its partner B is not in the registry and A sends a signal: nothing is sent to A, the
  counter of active conversations stays 1 and no conversation is recorded. In the second
  B is registered and leaves: A is sent \<open>partner_left\<close> and a status, the counter drops to 0
  and one conversation is recorded. So the outcome of the first is not the teardown that
  the remaining side undergoes in the second.
\<close>

theorem dangling_partner_counterexample:
  "store dangling ''A'' = store (exec scenario_paired init) ''A'' \<and>
   partnerId (the (store dangling ''A'')) = Some ''B'' \<and>
   clients_get dangling ''B'' = None \<and>
   clients_get (exec scenario_paired init) ''B'' \<noteq> None \<and>
   is_open dangling ''A'' \<and>
   sent dangling = sent (exec scenario_paired init) \<and>
   sent (handleMessage 5000 ''A'' msg_signal dangling) = sent dangling \<and>
   activeConversations (handleMessage 5000 ''A'' msg_signal dangling) = 1 \<and>
   conversationHistory (handleMessage 5000 ''A'' msg_signal dangling) = [] \<and>
   sent (handleLeave 5000 ''B'' (exec scenario_paired init)) =
     sent (exec scenario_paired init) @
       [(''A'', PartnerLeft), (''A'', Status ''Partner disconnected.'')] \<and>
   activeConversations (handleLeave 5000 ''B'' (exec scenario_paired init)) = 0 \<and>
   length (conversationHistory (handleLeave 5000 ''B'' (exec scenario_paired init))) = 1"
  by code_simp

text \<open>
  C9, amended. When a client \<open>a\<close> whose \<open>partnerId\<close> names an id that is not in the registry
  sends a signal, no payload is forwarded and the pairing state of \<open>a\<close> is torn down:
  \<open>partnerId\<close> and \<open>pairedAt\<close> of \<open>a\<close> are cleared, its \<open>wantsChat\<close> is reset and its id is taken
  out of the queue. The pairing state of \<open>a\<close> is then the one that a remaining side has
  after its partner left: in any state \<open>t\<close> where \<open>a\<close> is the same record and a registered
  \<open>b\<close> is paired with it, \<open>handleLeave\<close> of \<open>b\<close> leaves \<open>a\<close> with the same \<open>partnerId\<close> and
  \<open>pairedAt\<close>, and with the same record when \<open>a\<close> did not want a chat. Unlike in that
  teardown, where \<open>a\<close> with an open socket is sent \<open>partner_left\<close> and a status, nothing is
  sent to anyone, and the counter of active conversations and the conversation records
  stay as they are.
\<close>

theorem dangling_partner_self_heal:
  assumes "store s a = Some c" "partnerId c = Some b" "b \<noteq> []" "clients_get s b = None"
  shows "sent (handleSignal now a p s) = sent s \<and>
    store (handleSignal now a p s) =
      (store s)(a := Some (c\<lparr> partnerId := None, pairedAt := None, wantsChat := False \<rparr>)) \<and>
    waitingQueue (handleSignal now a p s) = remove1 (client_id c) (waitingQueue s) \<and>
    (distinct (waitingQueue s) \<longrightarrow> client_id c \<notin> set (waitingQueue (handleSignal now a p s))) \<and>
    clients (handleSignal now a p s) = clients s \<and>
    activeConversations (handleSignal now a p s) = activeConversations s \<and>
    conversationHistory (handleSignal now a p s) = conversationHistory s \<and>
    uncaught (handleSignal now a p s) = uncaught s \<and>
    (store t a = Some c \<and> clients_get t b = Some d \<and> partnerId d = Some a \<and> a \<noteq> b \<and>
     a \<in> set (clients t) \<and> a \<noteq> [] \<longrightarrow>
       (\<exists>x y. store (handleSignal now a p s) a = Some x \<and> store (handleLeave n b t) a = Some y \<and>
              partnerId x = None \<and> pairedAt x = None \<and> partnerId y = None \<and> pairedAt y = None \<and>
              (\<not> wantsChat c \<longrightarrow> x = y)) \<and>
       (is_open t a \<longrightarrow>
          sent (handleLeave n b t) =
            sent t @ [(a, PartnerLeft), (a, Status ''Partner disconnected.'')]))"
proof -
  let ?s = "handleSignal now a p s"
  have hs: "?s = handleLeave now a s"
    using assms by (simp add: handleSignal_def)
  have pr: "partner_ref s c = None"
    using assms by (auto simp: partner_ref_def clients_get_def split: if_splits)
  have st: "store ?s = (store s)(a := Some (clear c))"
    unfolding hs handleLeave_store [OF assms(1)] pr by auto
  have qu: "waitingQueue ?s = remove1 (client_id c) (waitingQueue s)"
    unfolding hs by (rule handleLeave_fields(2) [OF assms(1)])
  have "leave_partner now c (removeFromQueue (client_id c) s) = removeFromQueue (client_id c) s"
    using pr by (intro leave_partner_quiet) simp
  then have un: "uncaught ?s = uncaught s"
    using assms(1)
    by (simp add: hs handleLeave_def Let_def modify_def removeFromQueue_def split: option.splits)
  have 1: "store t a = Some c \<and> clients_get t b = Some d \<and> partnerId d = Some a \<and> a \<noteq> b \<and>
     a \<in> set (clients t) \<and> a \<noteq> [] \<longrightarrow>
       (\<exists>x y. store ?s a = Some x \<and> store (handleLeave n b t) a = Some y \<and>
              partnerId x = None \<and> pairedAt x = None \<and> partnerId y = None \<and> pairedAt y = None \<and>
              (\<not> wantsChat c \<longrightarrow> x = y)) \<and>
       (is_open t a \<longrightarrow>
          sent (handleLeave n b t) =
            sent t @ [(a, PartnerLeft), (a, Status ''Partner disconnected.'')])"
  proof
    assume h: "store t a = Some c \<and> clients_get t b = Some d \<and> partnerId d = Some a \<and> a \<noteq> b \<and>
     a \<in> set (clients t) \<and> a \<noteq> []"
    then have tb: "store t b = Some d" by (auto simp: clients_get_def split: if_splits)
    have pt: "partner_ref t d = Some a" using h by (simp add: partner_ref_def)
    then have "store (handleLeave n b t) a = Some (unpair c)"
      using h by (simp add: handleLeave_store [OF tb])
    moreover have "store ?s a = Some (clear c)" by (simp add: st)
    moreover have "\<not> wantsChat c \<longrightarrow> clear c = unpair c" by (simp add: clear_def unpair_def)
    ultimately have x: "\<exists>x y. store ?s a = Some x \<and> store (handleLeave n b t) a = Some y \<and>
              partnerId x = None \<and> pairedAt x = None \<and> partnerId y = None \<and> pairedAt y = None \<and>
              (\<not> wantsChat c \<longrightarrow> x = y)"
      by (simp add: clear_def unpair_def)
    have "is_open t a \<longrightarrow>
          sent (handleLeave n b t) =
            sent t @ [(a, PartnerLeft), (a, Status ''Partner disconnected.'')]"
      using pt by (simp add: handleLeave_sent [OF tb] leave_notices_def)
    with x show "(\<exists>x y. store ?s a = Some x \<and> store (handleLeave n b t) a = Some y \<and>
              partnerId x = None \<and> pairedAt x = None \<and> partnerId y = None \<and> pairedAt y = None \<and>
              (\<not> wantsChat c \<longrightarrow> x = y)) \<and>
       (is_open t a \<longrightarrow>
          sent (handleLeave n b t) =
            sent t @ [(a, PartnerLeft), (a, Status ''Partner disconnected.'')])"
      by blast
  qed
  show ?thesis
    using st qu un 1 handleLeave_quiet [OF assms(1) pr, of now]
    by (simp add: hs clear_def handleLeave_fields)
qed

theorem dangling_partner_self_heal_witness:
  "store dangling ''A'' = Some (the (store dangling ''A'')) \<and>
   partnerId (the (store dangling ''A'')) = Some ''B'' \<and> ''B'' \<noteq> [] \<and>
   clients_get dangling ''B'' = None \<and>
   sent (handleSignal 5000 ''A'' (Some offer) dangling) = sent dangling \<and>
   activeConversations (handleSignal 5000 ''A'' (Some offer) dangling) = activeConversations dangling \<and>
   partnerId (the (store (handleSignal 5000 ''A'' (Some offer) dangling) ''A'')) = None \<and>
   partnerId (the (store (handleLeave 5000 ''B'' (exec scenario_paired init)) ''A'')) = None \<and>
   sent (handleLeave 5000 ''B'' (exec scenario_paired init)) =
     sent (exec scenario_paired init) @
       [(''A'', PartnerLeft), (''A'', Status ''Partner disconnected.'')]"
proof -
  let ?t = "exec scenario_paired init"
  have a: "store dangling ''A'' = Some (the (store dangling ''A''))"
    "partnerId (the (store dangling ''A'')) = Some ''B''" "''B'' \<noteq> []"
    "clients_get dangling ''B'' = None"
    by code_simp+
  have b: "store ?t ''A'' = Some (the (store dangling ''A''))"
    "clients_get ?t ''B'' = Some (the (store ?t ''B''))"
    "partnerId (the (store ?t ''B'')) = Some ''A''" "''A'' \<noteq> ''B''"
    "''A'' \<in> set (clients ?t)" "''A'' \<noteq> []" "is_open ?t ''A''"
    by code_simp+
  note t = dangling_partner_self_heal [OF a, of 5000 "Some offer" ?t "the (store ?t ''B'')" 5000]
  show ?thesis
    using t a b by auto
qed

section \<open>One round of the heartbeat\<close>

lemma partner_ref_Some: "partner_ref s c = Some y \<Longrightarrow> partnerId c = Some y"
  by (auto simp: partner_ref_def split: option.splits if_splits)

lemma handleLeave_store_other:
  assumes "y \<noteq> x"
  shows "store (handleLeave now x s) y = store s y \<or>
         (\<exists>cx. store s x = Some cx \<and> partnerId cx = Some y \<and>
               store (handleLeave now x s) y = map_option unpair (store s y))"
proof (cases "store s x")
  case None
  then show ?thesis by (simp add: handleLeave_fields)
next
  case (Some cx)
  show ?thesis
    using assms Some partner_ref_Some [of s cx y]
    by (auto simp: handleLeave_store [OF Some])
qed

lemma cleanupClient_store: "store (cleanupClient now x s) = store s \<or>
    store (cleanupClient now x s) = store (handleLeave now x s)"
  by (auto simp: cleanupClient_def split: option.splits)

lemma cleanupClient_store_other:
  assumes "y \<noteq> x"
  shows "store (cleanupClient now x s) y = store s y \<or>
         (\<exists>cx. store s x = Some cx \<and> partnerId cx = Some y \<and>
               store (cleanupClient now x s) y = map_option unpair (store s y))"
  using cleanupClient_store [of now x s] handleLeave_store_other [OF assms, of now s]
  by auto

lemma heartbeat_visit_store_other:
  assumes "y \<noteq> x"
  shows "store (heartbeat_visit now x s) y = store s y \<or>
         (\<exists>cx. store s x = Some cx \<and> partnerId cx = Some y \<and>
               store (heartbeat_visit now x s) y = map_option unpair (store s y))"
proof (cases "clients_get s x")
  case None
  then show ?thesis by (simp add: heartbeat_visit_def)
next
  case (Some cx)
  then have cx: "store s x = Some cx" by (auto simp: clients_get_def split: if_splits)
  show ?thesis
  proof (cases "isAlive cx")
    case False
    then have e: "heartbeat_visit now x s = cleanupClient now x (terminate x s)"
      using Some by (simp add: heartbeat_visit_def)
    show ?thesis
      using cleanupClient_store_other [OF assms, of now "terminate x s"] assms cx
      by (auto simp: e terminate_def)
  next
    case True
    show ?thesis
    proof (cases "ping_throws (readyState cx)")
      case False
      then show ?thesis using Some True assms by (simp add: heartbeat_visit_def Let_def)
    next
      case pt: True
      then have e: "heartbeat_visit now x s =
          cleanupClient now x (modify x (\<lambda>x. x\<lparr> isAlive := False \<rparr>) s)"
        using Some True by (simp add: heartbeat_visit_def Let_def)
      show ?thesis
        using cleanupClient_store_other [OF assms, of now "modify x (\<lambda>x. x\<lparr> isAlive := False \<rparr>) s"]
          assms cx
        by (auto simp: e)
    qed
  qed
qed

lemma heartbeat_visit_frame:
  assumes "y \<noteq> x" "store s y = Some c"
  shows "\<exists>c'. store (heartbeat_visit now x s) y = Some c' \<and> isAlive c' = isAlive c \<and>
              readyState c' = readyState c \<and> (partnerId c' = partnerId c \<or> partnerId c' = None)"
  using heartbeat_visit_store_other [OF assms(1), of now s] assms(2)
  by (auto simp: unpair_def)

lemma heartbeat_visit_same:
  assumes "y \<noteq> x" "\<And>cx. store s x = Some cx \<Longrightarrow> partnerId cx \<noteq> Some y"
  shows "store (heartbeat_visit now x s) y = store s y"
  using heartbeat_visit_store_other [OF assms(1), of now s] assms(2)
  by auto

lemma cleanupClient_clients:
  "clients (cleanupClient now x s) = (if store s x = None then clients s else removeAll x (clients s))"
  by (auto simp: cleanupClient_def clients_get_def handleLeave_fields removeAll_id split: option.splits)

lemma heartbeat_visit_clients:
  "clients (heartbeat_visit now x s) = clients s \<or>
   clients (heartbeat_visit now x s) = removeAll x (clients s)"
  by (auto simp: heartbeat_visit_def Let_def cleanupClient_clients terminate_def split: option.splits)

lemma heartbeat_visit_clients_other:
  "y \<noteq> x \<Longrightarrow> y \<in> set (clients (heartbeat_visit now x s)) \<longleftrightarrow> y \<in> set (clients s)"
  using heartbeat_visit_clients [of now x s] by auto

lemma heartbeat_visit_clients_subset:
  "set (clients (heartbeat_visit now x s)) \<subseteq> set (clients s)"
  using heartbeat_visit_clients [of now x s] by auto

lemma heartbeat_visit_unregistered:
  "x \<notin> set (clients s) \<Longrightarrow> heartbeat_visit now x s = s"
  by (simp add: heartbeat_visit_def clients_get_def)

lemma heartbeat_visit_dead:
  assumes "x \<in> set (clients s)" "store s x = Some c" "\<not> isAlive c"
  shows "heartbeat_visit now x s = cleanupClient now x (terminate x s)"
    and "x \<notin> set (clients (heartbeat_visit now x s))"
    and "\<not> is_open (heartbeat_visit now x s) x"
proof -
  show e: "heartbeat_visit now x s = cleanupClient now x (terminate x s)"
    using assms by (simp add: heartbeat_visit_def clients_get_def)
  show "x \<notin> set (clients (heartbeat_visit now x s))"
    using assms by (simp add: e cleanupClient_clients terminate_def)
  have t: "store (terminate x s) x = Some (c\<lparr> readyState := (if readyState c = CLOSED then CLOSED else CLOSING) \<rparr>)"
    using assms by (simp add: terminate_def)
  have "x \<in> set (clients (terminate x s))" using assms by (simp add: terminate_def)
  then have "store (cleanupClient now x (terminate x s)) = store (handleLeave now x (terminate x s))"
    using t by (simp add: cleanupClient_def clients_get_def)
  then show "\<not> is_open (heartbeat_visit now x s) x"
    by (simp add: e is_open_def handleLeave_store [OF t] clear_def)
qed

lemma heartbeat_visit_alive:
  assumes "x \<in> set (clients s)" "store s x = Some c" "isAlive c" "readyState c \<noteq> CONNECTING"
  shows "heartbeat_visit now x s =
           (modify x (\<lambda>x. x\<lparr> isAlive := False \<rparr>) s)\<lparr> pinged := pinged s @ [x] \<rparr>"
  using assms by (simp add: heartbeat_visit_def clients_get_def Let_def ping_throws_def)

section \<open>A whole tick\<close>

lemma is_open_visit_other: "y \<noteq> x \<Longrightarrow> is_open (heartbeat_visit now x s) y = is_open s y"
  using heartbeat_visit_store_other [of y x now s]
  by (auto simp: is_open_def unpair_def split: option.splits)

lemma fold_visit_stay:
  "a \<notin> set (clients s) \<Longrightarrow> \<not> is_open s a \<Longrightarrow>
   a \<notin> set (clients (fold (heartbeat_visit now) xs s)) \<and> \<not> is_open (fold (heartbeat_visit now) xs s) a"
proof (induction xs arbitrary: s)
  case Nil
  then show ?case by simp
next
  case (Cons x xs)
  have "a \<notin> set (clients (heartbeat_visit now x s)) \<and> \<not> is_open (heartbeat_visit now x s) a"
  proof (cases "x = a")
    case True
    then show ?thesis using Cons.prems by (simp add: heartbeat_visit_unregistered)
  next
    case False
    then show ?thesis
      using Cons.prems heartbeat_visit_clients_subset [of now x s] is_open_visit_other [of a x now s]
      by auto
  qed
  then show ?case using Cons.IH [of "heartbeat_visit now x s"] by simp
qed

lemma fold_visit_dead:
  "a \<in> set xs \<Longrightarrow> a \<in> set (clients s) \<Longrightarrow> store s a = Some c \<Longrightarrow> \<not> isAlive c \<Longrightarrow>
   a \<notin> set (clients (fold (heartbeat_visit now) xs s)) \<and> \<not> is_open (fold (heartbeat_visit now) xs s) a"
proof (induction xs arbitrary: s c)
  case Nil
  then show ?case by simp
next
  case (Cons x xs)
  show ?case
  proof (cases "x = a")
    case True
    have "a \<notin> set (clients (heartbeat_visit now a s))" "\<not> is_open (heartbeat_visit now a s) a"
      using heartbeat_visit_dead(2,3) [OF Cons.prems(2,3,4)] by simp_all
    then show ?thesis using fold_visit_stay [of a "heartbeat_visit now a s" now xs] True by simp
  next
    case False
    from heartbeat_visit_frame [of a x s c now] False Cons.prems(3)
    obtain c' where c': "store (heartbeat_visit now x s) a = Some c'" "isAlive c' = isAlive c"
      by auto
    have "a \<in> set (clients (heartbeat_visit now x s))"
      using heartbeat_visit_clients_other [of a x now s] False Cons.prems(2) by simp
    moreover have "a \<in> set xs" using Cons.prems(1) False by simp
    ultimately show ?thesis
      using Cons.IH [of "heartbeat_visit now x s" c'] c' Cons.prems(4) by simp
  qed
qed

lemma fold_visit_frame:
  "a \<notin> set xs \<Longrightarrow> store s a = Some c \<Longrightarrow>
   (\<exists>c'. store (fold (heartbeat_visit now) xs s) a = Some c' \<and> isAlive c' = isAlive c \<and>
         readyState c' = readyState c) \<and>
   (a \<in> set (clients (fold (heartbeat_visit now) xs s)) \<longleftrightarrow> a \<in> set (clients s))"
proof (induction xs arbitrary: s c)
  case Nil
  then show ?case by simp
next
  case (Cons x xs)
  have xa: "a \<noteq> x" "a \<notin> set xs" using Cons.prems(1) by auto
  from heartbeat_visit_frame [OF xa(1) Cons.prems(2), of now]
  obtain c' where c': "store (heartbeat_visit now x s) a = Some c'" "isAlive c' = isAlive c"
    "readyState c' = readyState c" by auto
  show ?case
    using Cons.IH [OF xa(2) c'(1)] c' heartbeat_visit_clients_other [OF xa(1), of now s] by simp
qed

lemma pinged_cleanupClient [simp]: "pinged (cleanupClient now x s) = pinged s"
  by (auto simp: cleanupClient_def handleLeave_fields split: option.splits)

lemma heartbeat_visit_pinged: "\<exists>ps. pinged (heartbeat_visit now x s) = pinged s @ ps"
  by (auto simp: heartbeat_visit_def Let_def terminate_def split: option.splits)

lemma fold_visit_pinged: "\<exists>ps. pinged (fold (heartbeat_visit now) xs s) = pinged s @ ps"
proof (induction xs arbitrary: s)
  case Nil
  then show ?case by simp
next
  case (Cons x xs)
  from heartbeat_visit_pinged [of now x s] obtain p1 where
    p1: "pinged (heartbeat_visit now x s) = pinged s @ p1" by auto
  from Cons.IH [of "heartbeat_visit now x s"] obtain p2 where
    "pinged (fold (heartbeat_visit now) xs (heartbeat_visit now x s)) = pinged (heartbeat_visit now x s) @ p2"
    by auto
  then show ?case using p1 by simp
qed

lemma fold_visit_alive:
  "distinct xs \<Longrightarrow> a \<in> set xs \<Longrightarrow> a \<in> set (clients s) \<Longrightarrow> store s a = Some c \<Longrightarrow> isAlive c \<Longrightarrow>
   readyState c \<noteq> CONNECTING \<Longrightarrow>
   a \<in> set (clients (fold (heartbeat_visit now) xs s)) \<and>
   (\<exists>c'. store (fold (heartbeat_visit now) xs s) a = Some c' \<and> \<not> isAlive c' \<and> readyState c' = readyState c) \<and>
   (\<exists>ps. pinged (fold (heartbeat_visit now) xs s) = pinged s @ ps \<and> a \<in> set ps)"
proof (induction xs arbitrary: s c)
  case Nil
  then show ?case by simp
next
  case (Cons x xs)
  show ?case
  proof (cases "x = a")
    case True
    let ?v = "heartbeat_visit now a s"
    have e: "?v = (modify a (\<lambda>x. x\<lparr> isAlive := False \<rparr>) s)\<lparr> pinged := pinged s @ [a] \<rparr>"
      using heartbeat_visit_alive [OF Cons.prems(3,4,5,6)] .
    have na: "a \<notin> set xs" using Cons.prems(1) True by simp
    have va: "store ?v a = Some (c\<lparr> isAlive := False \<rparr>)" "a \<in> set (clients ?v)"
      "pinged ?v = pinged s @ [a]"
      using Cons.prems(3,4) by (simp_all add: e)
    from fold_visit_pinged [of now xs ?v] obtain ps where
      ps: "pinged (fold (heartbeat_visit now) xs ?v) = pinged ?v @ ps" by auto
    show ?thesis
      using fold_visit_frame [OF na va(1), of now] va ps True by auto
  next
    case False
    let ?v = "heartbeat_visit now x s"
    have xa: "a \<noteq> x" using False by simp
    from heartbeat_visit_frame [OF xa Cons.prems(4), of now]
    obtain c' where c': "store ?v a = Some c'" "isAlive c' = isAlive c" "readyState c' = readyState c"
      by auto
    have r: "a \<in> set (clients ?v)"
      using heartbeat_visit_clients_other [OF xa, of now s] Cons.prems(3) by simp
    from heartbeat_visit_pinged [of now x s] obtain p1 where p1: "pinged ?v = pinged s @ p1" by auto
    have "a \<in> set (clients (fold (heartbeat_visit now) xs ?v)) \<and>
      (\<exists>c''. store (fold (heartbeat_visit now) xs ?v) a = Some c'' \<and> \<not> isAlive c'' \<and> readyState c'' = readyState c') \<and>
      (\<exists>ps. pinged (fold (heartbeat_visit now) xs ?v) = pinged ?v @ ps \<and> a \<in> set ps)"
      using Cons.IH [of ?v c'] Cons.prems c' r False by simp
    then show ?thesis using p1 c' by auto
  qed
qed

lemma heartbeat_visit_partner:
  assumes "store s y = Some c"
  shows "\<exists>c'. store (heartbeat_visit now x s) y = Some c' \<and>
              (partnerId c' = partnerId c \<or> partnerId c' = None)"
proof (cases "y = x")
  case False
  then show ?thesis using heartbeat_visit_frame [OF False assms, of now] by auto
next
  case True
  have h: "\<exists>c'. store (cleanupClient now x t) x = Some c' \<and>
              (partnerId c' = partnerId c0 \<or> partnerId c' = None)"
    if "store t x = Some c0" for t c0
    using cleanupClient_store [of now x t] that
    by (auto simp: handleLeave_store [OF that] clear_def)
  show ?thesis
    using assms True h [of "terminate x s"] h [of "modify x (\<lambda>x. x\<lparr> isAlive := False \<rparr>) s"]
    by (auto simp: heartbeat_visit_def Let_def terminate_def split: option.splits)
qed

lemma fold_visit_partner:
  "store s y = Some c \<Longrightarrow>
   \<exists>c'. store (fold (heartbeat_visit now) xs s) y = Some c' \<and>
        (partnerId c' = partnerId c \<or> partnerId c' = None)"
proof (induction xs arbitrary: s c)
  case Nil
  then show ?case by simp
next
  case (Cons x xs)
  from heartbeat_visit_partner [OF Cons.prems, of now x] obtain c1 where
    c1: "store (heartbeat_visit now x s) y = Some c1" "partnerId c1 = partnerId c \<or> partnerId c1 = None"
    by auto
  from Cons.IH [OF c1(1)] c1(2) show ?case by auto
qed

lemma handleLeave_sent_prefix: "\<exists>ms. sent (handleLeave now x s) = sent s @ ms"
  by (cases "store s x") (auto simp: handleLeave_fields handleLeave_sent)

lemma cleanupClient_sent_prefix: "\<exists>ms. sent (cleanupClient now x s) = sent s @ ms"
  using handleLeave_sent_prefix [of now x s]
  by (auto simp: cleanupClient_def split: option.splits)

lemma heartbeat_visit_sent: "\<exists>ms. sent (heartbeat_visit now x s) = sent s @ ms"
  using cleanupClient_sent_prefix [of now x "terminate x s"]
    cleanupClient_sent_prefix [of now x "modify x (\<lambda>x. x\<lparr> isAlive := False \<rparr>) s"]
  by (auto simp: heartbeat_visit_def Let_def terminate_def split: option.splits)

lemma fold_visit_sent: "\<exists>ms. sent (fold (heartbeat_visit now) xs s) = sent s @ ms"
proof (induction xs arbitrary: s)
  case Nil
  then show ?case by simp
next
  case (Cons x xs)
  from heartbeat_visit_sent [of now x s] obtain m1 where
    m1: "sent (heartbeat_visit now x s) = sent s @ m1" by auto
  from Cons.IH [of "heartbeat_visit now x s"] obtain m2 where
    "sent (fold (heartbeat_visit now) xs (heartbeat_visit now x s)) = sent (heartbeat_visit now x s) @ m2"
    by auto
  then show ?case using m1 by simp
qed

section \<open>The partner of a reaped client is told\<close>

lemma heartbeat_visit_dead_sent:
  assumes cs: "consistent s" and a: "a \<in> set (clients s)" "store s a = Some c" "\<not> isAlive c"
    and p: "partnerId c = Some b" and ob: "is_open s b"
  shows "sent (heartbeat_visit now a s) = sent s @ [(b, PartnerLeft), (b, Status ''Partner disconnected.'')]"
proof -
  let ?t = "terminate a s"
  let ?c = "c\<lparr> readyState := (if readyState c = CLOSED then CLOSED else CLOSING) \<rparr>"
  from cs have o: "objs_ok s" and sy: "sym_ok s" by (simp_all add: consistent_def)
  from sym_okD [OF sy a(2) p] obtain d where d: "b \<noteq> a" "b \<in> set (clients s)" "store s b = Some d"
    by auto
  have bne: "b \<noteq> []" using objs_okD [OF o d(3)] by simp
  have ta: "store ?t a = Some ?c" "a \<in> set (clients ?t)"
    using a by (simp_all add: terminate_def)
  have pr: "partner_ref ?t ?c = Some b"
    using p d bne by (simp add: partner_ref_def terminate_def)
  have op: "is_open ?t b" using ob d(1) by (simp add: terminate_def is_open_def)
  have "sent (handleLeave now a ?t) = sent ?t @ leave_notices ?t ?c"
    by (rule handleLeave_sent [OF ta(1)])
  then have "sent (handleLeave now a ?t) = sent s @ [(b, PartnerLeft), (b, Status ''Partner disconnected.'')]"
    using pr op by (simp add: leave_notices_def terminate_def)
  then show ?thesis
    using heartbeat_visit_dead(1) [OF a] cleanupClient_registered [OF ta(2,1), of now] by simp
qed

lemma fold_visit_notice:
  "consistent s \<Longrightarrow> distinct xs \<Longrightarrow> a \<in> set xs \<Longrightarrow> a \<in> set (clients s) \<Longrightarrow> store s a = Some c \<Longrightarrow>
   \<not> isAlive c \<Longrightarrow> partnerId c = Some b \<Longrightarrow> is_open s b \<Longrightarrow>
   (\<exists>d. store s b = Some d \<and> isAlive d) \<or> b \<notin> set (takeWhile (\<lambda>x. x \<noteq> a) xs) \<Longrightarrow>
   \<exists>ms. sent (fold (heartbeat_visit now) xs s) = sent s @ ms \<and> (b, PartnerLeft) \<in> set ms"
proof (induction xs arbitrary: s)
  case Nil
  then show ?case by simp
next
  case (Cons x xs)
  let ?v = "heartbeat_visit now x s"
  from Cons.prems(1) have o: "objs_ok s" and sy: "sym_ok s" by (simp_all add: consistent_def)
  from sym_okD [OF sy Cons.prems(5,7)] obtain d where d: "b \<noteq> a" "b \<in> set (clients s)"
    "store s b = Some d" "partnerId d = Some a" by auto
  show ?case
  proof (cases "x = a")
    case True
    have 1: "sent ?v = sent s @ [(b, PartnerLeft), (b, Status ''Partner disconnected.'')]"
      using heartbeat_visit_dead_sent [OF Cons.prems(1,4,5,6,7,8)] True by simp
    from fold_visit_sent [of now xs ?v] obtain m2 where
      "sent (fold (heartbeat_visit now) xs ?v) = sent ?v @ m2" by auto
    then show ?thesis using 1 by simp
  next
    case False
    have cv: "consistent ?v" using Cons.prems(1) by (rule consistent_heartbeat_visit)
    have av: "a \<in> set (clients ?v)"
      using heartbeat_visit_clients_other [of a x now s] False Cons.prems(4) by simp
    have ax: "a \<in> set xs" "distinct xs" using Cons.prems(2,3) False by auto
    have keep: "store ?v a = Some c \<and> is_open ?v b \<and>
      ((\<exists>d. store ?v b = Some d \<and> isAlive d) \<or> b \<notin> set (takeWhile (\<lambda>x. x \<noteq> a) xs))"
    proof (cases "x = b")
      case True
      with Cons.prems(9) False d(3) have al: "isAlive d" by auto
      have e: "?v = (modify b (\<lambda>x. x\<lparr> isAlive := False \<rparr>) s)\<lparr> pinged := pinged s @ [b] \<rparr>"
        using heartbeat_visit_alive [OF d(2,3) al, of now] objs_okD [OF o d(3)] True by simp
      have "b \<notin> set (takeWhile (\<lambda>x. x \<noteq> a) xs)"
        using Cons.prems(2) True by (auto dest: set_takeWhileD)
      then show ?thesis
        using Cons.prems(5,8) d(1,3) by (simp add: e is_open_def)
    next
      case xb: False
      have na: "partnerId cx \<noteq> Some a" if "store s x = Some cx" for cx
      proof
        assume "partnerId cx = Some a"
        from sym_okD [OF sy that this] Cons.prems(5,7) xb show False by auto
      qed
      have nb: "partnerId cx \<noteq> Some b" if "store s x = Some cx" for cx
      proof
        assume "partnerId cx = Some b"
        from sym_okD [OF sy that this] d(3,4) False show False by auto
      qed
      have sa: "store ?v a = store s a" using heartbeat_visit_same [of a x s now] False na by auto
      have sb: "store ?v b = store s b" using heartbeat_visit_same [of b x s now] xb nb by auto
      have "b \<notin> set (takeWhile (\<lambda>x. x \<noteq> a) xs)" if "b \<notin> set (takeWhile (\<lambda>x. x \<noteq> a) (x # xs))"
        using that False by simp
      then show ?thesis
        using sa sb Cons.prems(5,8,9) by (auto simp: is_open_def)
    qed
    from Cons.IH [OF cv ax(2,1) av _ Cons.prems(6,7)] keep obtain m2 where
      m2: "sent (fold (heartbeat_visit now) xs ?v) = sent ?v @ m2" "(b, PartnerLeft) \<in> set m2"
      by blast
    from heartbeat_visit_sent [of now x s] obtain m1 where "sent ?v = sent s @ m1" by auto
    then show ?thesis using m2 by simp
  qed
qed

section \<open>A client that does not answer\<close>

lemma quiet_refl: "quiet_for a s s"
  by (simp add: quiet_for_def)

lemma quiet_trans: "quiet_for a s t \<Longrightarrow> quiet_for a t u \<Longrightarrow> quiet_for a s u"
  unfolding quiet_for_def by (metis (no_types, lifting))

lemma quiet_same:
  "quiet_for a s t \<Longrightarrow> store u = store t \<Longrightarrow> set (clients u) \<subseteq> set (clients t) \<Longrightarrow> quiet_for a s u"
  unfolding quiet_for_def by auto

lemma quiet_send: "quiet_for a s t \<Longrightarrow> quiet_for a s (send x m t)"
  by (erule quiet_same) simp_all

lemma quiet_removeFromQueue: "quiet_for a s t \<Longrightarrow> quiet_for a s (removeFromQueue k t)"
  by (erule quiet_same) simp_all

lemma quiet_clients_delete: "quiet_for a s t \<Longrightarrow> quiet_for a s (clients_delete k t)"
  by (erule quiet_same) auto

lemma quiet_record: "quiet_for a s t \<Longrightarrow> quiet_for a s (record_conversation now t1 t2 t)"
  by (erule quiet_same) simp_all

lemma quiet_queue: "quiet_for a s t \<Longrightarrow> quiet_for a s (t\<lparr> waitingQueue := q \<rparr>)"
  by (erule quiet_same) simp_all

lemma quiet_active: "quiet_for a s t \<Longrightarrow> quiet_for a s (t\<lparr> activeConversations := n \<rparr>)"
  by (erule quiet_same) simp_all

lemma quiet_pinged: "quiet_for a s t \<Longrightarrow> quiet_for a s (t\<lparr> pinged := n \<rparr>)"
  by (erule quiet_same) simp_all

lemma quiet_modify:
  "quiet_for a s t \<Longrightarrow> (\<And>c. isAlive (f c) \<longrightarrow> isAlive c) \<Longrightarrow> quiet_for a s (modify x f t)"
  unfolding quiet_for_def by (auto split: if_splits)

lemma quiet_modify_other:
  "quiet_for a s t \<Longrightarrow> x \<noteq> a \<Longrightarrow> quiet_for a s (modify x f t)"
  unfolding quiet_for_def by auto

lemmas quiet_prims = quiet_send quiet_removeFromQueue quiet_clients_delete quiet_record quiet_queue
  quiet_active quiet_pinged

lemma quiet_connectPair: "quiet_for a s t \<Longrightarrow> quiet_for a s (connectPair now x y t)"
  unfolding connectPair_def Let_def
  by (auto split: option.splits intro!: quiet_prims quiet_modify)

lemma quiet_leave_partner: "quiet_for a s t \<Longrightarrow> quiet_for a s (leave_partner now c t)"
  unfolding leave_partner_def Let_def
  by (auto split: option.splits intro!: quiet_prims quiet_modify)

lemma quiet_handleLeave: "quiet_for a s t \<Longrightarrow> quiet_for a s (handleLeave now x t)"
  unfolding handleLeave_def Let_def
  by (auto split: option.splits intro!: quiet_prims quiet_modify quiet_leave_partner)

lemma quiet_cleanupClient: "quiet_for a s t \<Longrightarrow> quiet_for a s (cleanupClient now x t)"
  unfolding cleanupClient_def
  by (auto split: option.splits intro!: quiet_prims quiet_handleLeave)

lemma quiet_ready_wait: "quiet_for a s t \<Longrightarrow> quiet_for a s (ready_wait c x t)"
  unfolding ready_wait_def by (auto intro!: quiet_prims)

lemma quiet_ready_loop: "quiet_for a s t \<Longrightarrow> quiet_for a s (ready_loop now c x t)"
proof (induction now c x t rule: ready_loop.induct)
  case (1 now c x t)
  show ?case
  proof (cases "waitingQueue t")
    case Nil
    then show ?thesis using "1.prems" by (simp add: ready_loop.simps [of now c x t] quiet_ready_wait)
  next
    case (Cons p q)
    have q: "quiet_for a s (t\<lparr> waitingQueue := q \<rparr>)" using "1.prems" by (rule quiet_queue)
    show ?thesis
      using Cons q "1.IH"
      by (auto simp: ready_loop.simps [of now c x t] quiet_ready_wait quiet_connectPair
          split: option.splits)
  qed
qed

lemma quiet_handleReady: "quiet_for a s t \<Longrightarrow> quiet_for a s (handleReady now x t)"
  unfolding handleReady_def
  by (auto split: option.splits intro!: quiet_prims quiet_ready_loop quiet_modify)

lemma quiet_handleSignal: "quiet_for a s t \<Longrightarrow> quiet_for a s (handleSignal now x p t)"
  unfolding handleSignal_def
  by (auto split: option.splits intro!: quiet_prims quiet_handleLeave)

lemma quiet_handleMessage: "quiet_for a s t \<Longrightarrow> quiet_for a s (handleMessage now x p t)"
  unfolding handleMessage_def
  by (auto split: option.splits json.splits
      intro!: quiet_prims quiet_handleLeave quiet_handleSignal quiet_handleReady)

lemma quiet_heartbeat_visit: "quiet_for a s t \<Longrightarrow> quiet_for a s (heartbeat_visit now x t)"
  unfolding heartbeat_visit_def Let_def terminate_def
  by (auto split: option.splits intro!: quiet_prims quiet_cleanupClient quiet_modify)

lemma quiet_fold_visit: "quiet_for a s t \<Longrightarrow> quiet_for a s (fold (heartbeat_visit now) xs t)"
  by (induction xs arbitrary: t) (auto simp: quiet_heartbeat_visit)

lemma quiet_step:
  assumes "enabled s e" "e \<noteq> Pong a" "store s a \<noteq> None"
  shows "quiet_for a s (step e s)"
proof (cases e)
  case (Connection now x)
  with assms have "x \<noteq> a" by auto
  then show ?thesis
    using Connection by (auto simp: quiet_for_def onConnection_def Let_def)
next
  case (Message now x p)
  then show ?thesis by (simp add: quiet_handleMessage quiet_refl)
next
  case (Pong x)
  with assms have "x \<noteq> a" by auto
  then show ?thesis using Pong by (simp add: onPong_def quiet_modify_other quiet_refl)
next
  case (Close now x)
  then show ?thesis
    by (auto simp: onClose_def set_readyState_def intro!: quiet_cleanupClient quiet_modify quiet_refl)
next
  case (SocketError now x)
  then show ?thesis
    by (auto simp: onError_def intro!: quiet_cleanupClient quiet_modify quiet_refl)
next
  case (Transport x rs)
  then show ?thesis by (auto simp: set_readyState_def intro!: quiet_modify quiet_refl)
next
  case (Heartbeat now)
  then show ?thesis by (simp add: heartbeat_def quiet_fold_visit quiet_refl)
qed

lemma quiet_exec:
  "all_enabled es s \<Longrightarrow> \<forall>e \<in> set es. e \<noteq> Pong a \<Longrightarrow> store s a \<noteq> None \<Longrightarrow> quiet_for a s (exec es s)"
proof (induction es arbitrary: s)
  case Nil
  then show ?case by (simp add: exec_def quiet_refl)
next
  case (Cons e es)
  have 1: "quiet_for a s (step e s)" using Cons.prems by (intro quiet_step) auto
  then have "store (step e s) a \<noteq> None" using Cons.prems(3) by (auto simp: quiet_for_def)
  then have "quiet_for a (step e s) (exec es (step e s))"
    using Cons.prems by (intro Cons.IH) auto
  then show ?case using 1 by (auto simp: exec_def intro: quiet_trans)
qed

section \<open>Reaping by the heartbeat\<close>

lemma fold_visit_clients_subset:
  "set (clients (fold (heartbeat_visit now) xs s)) \<subseteq> set (clients s)"
proof (induction xs arbitrary: s)
  case Nil
  then show ?case by simp
next
  case (Cons x xs)
  show ?case
    using Cons.IH [of "heartbeat_visit now x s"] heartbeat_visit_clients_subset [of now x s]
    by auto
qed

text \<open>
  C6, as the claim states it, fails: A did not answer the probe and is reaped at the second
  tick, but its partner B, whose socket is closing, is sent nothing.
\<close>

theorem heartbeat_reaping_counterexample:
  "all_enabled (scenario_silent_closing @ [Heartbeat 60000]) init \<and>
   ''A'' \<in> set (clients (exec scenario_silent_closing init)) \<and>
   \<not> isAlive (the (store (exec scenario_silent_closing init) ''A'')) \<and>
   partnerId (the (store (exec scenario_silent_closing init) ''A'')) = Some ''B'' \<and>
   ''B'' \<in> set (clients (exec scenario_silent_closing init)) \<and>
   ''A'' \<notin> set (clients (heartbeat 60000 (exec scenario_silent_closing init))) \<and>
   sent (heartbeat 60000 (exec scenario_silent_closing init)) = sent (exec scenario_silent_closing init)"
  by code_simp

text \<open>
  C6, amended. At a tick in a reachable state, for every registered client \<open>a\<close>:
  \<^item> if \<open>isAlive\<close> is false, \<open>a\<close> is terminated and torn down: after the tick it is not in the
    registry, its socket is not open, it is not in the queue and has no partner;
  \<^item> its partner \<open>b\<close>, if it had one, has no partner after the tick, and \<open>partner_left\<close> is
    sent to \<open>b\<close> during the tick when the socket of \<open>b\<close> is open and \<open>b\<close> is not itself reaped
    earlier in the same tick (\<open>b\<close> is alive, or does not come before \<open>a\<close> in the registry);
  \<^item> if \<open>isAlive\<close> is true, \<open>a\<close> stays registered, its \<open>isAlive\<close> is false after the tick and
    it has been pinged during the tick;
  \<^item> after any events that follow the tick, none of them a pong of \<open>a\<close>, the next tick
    leaves \<open>a\<close> out of the registry.
\<close>

theorem heartbeat_reaping:
  assumes "reachable s" "a \<in> set (clients s)" "store s a = Some c"
  shows
   "(\<not> isAlive c \<longrightarrow>
      a \<notin> set (clients (heartbeat now s)) \<and> \<not> is_open (heartbeat now s) a \<and>
      a \<notin> set (waitingQueue (heartbeat now s)) \<and>
      (\<exists>c'. store (heartbeat now s) a = Some c' \<and> partnerId c' = None \<and> pairedAt c' = None)) \<and>
    (\<not> isAlive c \<and> partnerId c = Some b \<longrightarrow>
      (\<exists>d'. store (heartbeat now s) b = Some d' \<and> partnerId d' = None \<and> pairedAt d' = None) \<and>
      (is_open s b \<and>
       ((\<exists>d. store s b = Some d \<and> isAlive d) \<or> b \<notin> set (takeWhile (\<lambda>x. x \<noteq> a) (clients s))) \<longrightarrow>
         (\<exists>ms. sent (heartbeat now s) = sent s @ ms \<and> (b, PartnerLeft) \<in> set ms))) \<and>
    (isAlive c \<longrightarrow>
      a \<in> set (clients (heartbeat now s)) \<and>
      (\<exists>c'. store (heartbeat now s) a = Some c' \<and> \<not> isAlive c') \<and>
      (\<exists>ps. pinged (heartbeat now s) = pinged s @ ps \<and> a \<in> set ps)) \<and>
    (all_enabled es (heartbeat now s) \<and> (\<forall>e \<in> set es. e \<noteq> Pong a) \<longrightarrow>
      a \<notin> set (clients (heartbeat now' (exec es (heartbeat now s)))))"
proof -
  let ?h = "heartbeat now s"
  have cs: "consistent s" using assms(1) by (rule reachable_consistent)
  then have o: "objs_ok s" and r: "reg_ok s" and sy: "sym_ok s" by (simp_all add: consistent_def)
  have ch: "consistent ?h" using cs by (rule consistent_heartbeat)
  then have dh: "detached_ok ?h" and qh: "queue_ok ?h" and syh: "sym_ok ?h" and soh: "solo_ok ?h"
    by (simp_all add: consistent_def)
  have dc: "distinct (clients s)" using r by (simp add: reg_ok_def)
  have nc: "readyState c \<noteq> CONNECTING" using objs_okD [OF o assms(3)] by simp
  have hf: "?h = fold (heartbeat_visit now) (clients s) s" by (simp add: heartbeat_def)
  from fold_visit_partner [OF assms(3), of now "clients s"] obtain c' where
    c': "store ?h a = Some c'" by (auto simp: hf)
  have dead: "a \<notin> set (clients ?h) \<and> \<not> is_open ?h a \<and> a \<notin> set (waitingQueue ?h) \<and>
      (\<exists>c'. store ?h a = Some c' \<and> partnerId c' = None \<and> pairedAt c' = None)" if "\<not> isAlive c"
  proof -
    have 1: "a \<notin> set (clients ?h)" "\<not> is_open ?h a"
      using fold_visit_dead [OF assms(2) assms(2,3) that, of now] by (simp_all add: hf)
    have 2: "partnerId c' = None" using detached_okD [OF dh c' 1(1)] by simp
    have 3: "pairedAt c' = None" using solo_okD [OF soh c'] 2 by simp
    have 4: "a \<notin> set (waitingQueue ?h)" using queue_okD [OF qh, of a] 1(1) by auto
    show ?thesis using 1 2 3 4 c' by simp
  qed
  have partner: "(\<exists>d'. store ?h b = Some d' \<and> partnerId d' = None \<and> pairedAt d' = None) \<and>
      (is_open s b \<and>
       ((\<exists>d. store s b = Some d \<and> isAlive d) \<or> b \<notin> set (takeWhile (\<lambda>x. x \<noteq> a) (clients s))) \<longrightarrow>
         (\<exists>ms. sent ?h = sent s @ ms \<and> (b, PartnerLeft) \<in> set ms))"
    if na: "\<not> isAlive c" and p: "partnerId c = Some b"
  proof -
    from sym_okD [OF sy assms(3) p] obtain d where d: "store s b = Some d" "partnerId d = Some a"
      by auto
    from fold_visit_partner [OF d(1), of now "clients s"] d(2) obtain d' where
      d': "store ?h b = Some d'" "partnerId d' = Some a \<or> partnerId d' = None" by (auto simp: hf)
    have "partnerId d' \<noteq> Some a"
    proof
      assume "partnerId d' = Some a"
      from sym_okD [OF syh d'(1) this] dead [OF na] show False by simp
    qed
    then have 1: "partnerId d' = None" using d'(2) by simp
    then have 2: "pairedAt d' = None" using solo_okD [OF soh d'(1)] by simp
    have 3: "\<exists>ms. sent ?h = sent s @ ms \<and> (b, PartnerLeft) \<in> set ms"
      if "is_open s b" "(\<exists>d. store s b = Some d \<and> isAlive d) \<or> b \<notin> set (takeWhile (\<lambda>x. x \<noteq> a) (clients s))"
      using fold_visit_notice [OF cs dc assms(2) assms(2,3) na p that, of now] by (simp add: hf)
    show ?thesis using d'(1) 1 2 3 by blast
  qed
  have alive: "a \<in> set (clients ?h) \<and> (\<exists>c'. store ?h a = Some c' \<and> \<not> isAlive c') \<and>
      (\<exists>ps. pinged ?h = pinged s @ ps \<and> a \<in> set ps)" if "isAlive c"
    using fold_visit_alive [OF dc assms(2) assms(2,3) that nc, of now] by (auto simp: hf)
  have twice: "a \<notin> set (clients (heartbeat now' (exec es ?h)))"
    if en: "all_enabled es ?h" and np: "\<forall>e \<in> set es. e \<noteq> Pong a"
  proof -
    let ?m = "exec es ?h"
    have q: "quiet_for a ?h ?m" using en np c' by (intro quiet_exec) auto
    have 1: "a \<notin> set (clients ?h) \<or> \<not> isAlive c'"
      using dead alive c' by (cases "isAlive c") auto
    from q c' obtain c'' where c'': "store ?m a = Some c''" "isAlive c'' \<longrightarrow> isAlive c'"
      by (auto simp: quiet_for_def)
    have mf: "heartbeat now' ?m = fold (heartbeat_visit now') (clients ?m) ?m"
      by (simp add: heartbeat_def)
    show ?thesis
    proof (cases "a \<in> set (clients ?m)")
      case False
      then show ?thesis using fold_visit_clients_subset [of now' "clients ?m" ?m] by (auto simp: mf)
    next
      case True
      then have "a \<in> set (clients ?h)" using q by (simp add: quiet_for_def)
      with 1 c''(2) have "\<not> isAlive c''" by auto
      from fold_visit_dead [OF True True c''(1) this, of now'] show ?thesis by (simp add: mf)
    qed
  qed
  show ?thesis using dead partner alive twice by blast
qed

theorem heartbeat_reaping_witness:
  "reachable (exec scenario_silent init) \<and>
   ''A'' \<in> set (clients (exec scenario_silent init)) \<and>
   \<not> isAlive (the (store (exec scenario_silent init) ''A'')) \<and>
   partnerId (the (store (exec scenario_silent init) ''A'')) = Some ''B'' \<and>
   is_open (exec scenario_silent init) ''B'' \<and>
   isAlive (the (store (exec scenario_silent init) ''B'')) \<and>
   ''A'' \<notin> set (clients (heartbeat 60000 (exec scenario_silent init))) \<and>
   ''B'' \<in> set (clients (heartbeat 60000 (exec scenario_silent init))) \<and>
   (''B'', PartnerLeft) \<in> set (sent (heartbeat 60000 (exec scenario_silent init))) \<and>
   ''B'' \<notin> set (clients (heartbeat 90000
      (exec [Message 70000 ''B'' msg_ready] (heartbeat 60000 (exec scenario_silent init)))))"
proof -
  let ?s = "exec scenario_silent init"
  have en: "all_enabled scenario_silent init"
    by code_simp
  have r: "reachable ?s"
    using exec_reachable [OF reachable_init en] .
  have a: "''A'' \<in> set (clients ?s)" "store ?s ''A'' = Some (the (store ?s ''A''))"
    "\<not> isAlive (the (store ?s ''A''))" "partnerId (the (store ?s ''A'')) = Some ''B''"
    by code_simp+
  have b: "''B'' \<in> set (clients ?s)" "store ?s ''B'' = Some (the (store ?s ''B''))"
    "isAlive (the (store ?s ''B''))" "is_open ?s ''B''"
    by code_simp+
  have e: "all_enabled [Message 70000 ''B'' msg_ready] (heartbeat 60000 ?s)"
    "\<forall>e \<in> set [Message 70000 ''B'' msg_ready]. e \<noteq> Pong ''B''"
    by code_simp+
  note ta = heartbeat_reaping [OF r a(1,2), of 60000 "''B''" "[]" 90000]
  note tb = heartbeat_reaping [OF r b(1,2), of 60000 "''A''" "[Message 70000 ''B'' msg_ready]" 90000]
  have 1: "''A'' \<notin> set (clients (heartbeat 60000 ?s))" using ta a by blast
  have 2: "\<exists>ms. sent (heartbeat 60000 ?s) = sent ?s @ ms \<and> (''B'', PartnerLeft) \<in> set ms"
    using ta a b by blast
  have 3: "''B'' \<in> set (clients (heartbeat 60000 ?s))" using tb b by blast
  have 4: "''B'' \<notin> set (clients (heartbeat 90000
      (exec [Message 70000 ''B'' msg_ready] (heartbeat 60000 ?s))))" using tb e by blast
  from 2 have 5: "(''B'', PartnerLeft) \<in> set (sent (heartbeat 60000 ?s))" by auto
  show ?thesis using r a b 1 3 4 5 by simp
qed

end
